theory Spec2Isabelle
  imports Complex_Main "HOL-Library.Word" "HOL-Library.Char_ord" "HOL-Library.List_Lexorder"
begin

unbundle bit_operations_syntax

section \<open>Platform values shared by the embedded modules\<close>

text \<open>
  A value thrown by the program or by one of its collaborators. \<open>RangeError\<close> and
  \<open>TypeError\<close> are the built-in JavaScript errors; \<open>Thrown\<close> stands for any other
  rejection reason (a transport failure, the \<open>error\<close> member of a response body).
\<close>

datatype thrown = RangeError string | TypeError string | Thrown string

text \<open>A JavaScript \<open>Date\<close>: a time value in milliseconds, or the invalid date (NaN).\<close>

datatype js_date = TimeValue int | InvalidDate

text \<open>The relational comparison \<open>a < b\<close> of two dates: false as soon as one is invalid.\<close>

fun date_less :: "js_date \<Rightarrow> js_date \<Rightarrow> bool" where
  "date_less (TimeValue a) (TimeValue b) = (a < b)"
| "date_less _ _ = False"

text \<open>
  A JavaScript number: a finite value, NaN or an infinity. Every finite double is a
  rational number; the model admits every rational. \<open>number_greater x y\<close> is the
  comparison \<open>x > y\<close> with a finite \<open>y\<close>: false for NaN.
\<close>

datatype number = Finite rat | NaN | PosInfinity | NegInfinity

fun number_greater :: "number \<Rightarrow> rat \<Rightarrow> bool" where
  "number_greater (Finite x) y = (y < x)"
| "number_greater PosInfinity y = True"
| "number_greater NaN y = False"
| "number_greater NegInfinity y = False"

subsection \<open>The \<open>Headers\<close> class\<close>

definition lower_char :: "char \<Rightarrow> char" where
  "lower_char c =
     (let n = (of_char c :: nat) in if 65 \<le> n \<and> n \<le> 90 then char_of (n + 32) else c)"

definition lower :: "string \<Rightarrow> string" where
  "lower s = map lower_char s"

fun join :: "string \<Rightarrow> string list \<Rightarrow> string" where
  "join sep [] = []"
| "join sep [x] = x"
| "join sep (x # y # ys) = x @ sep @ join sep (y # ys)"

text \<open>
  A \<open>Headers\<close> object is the list of its entries, under lower-cased names, in the
  order in which they came. \<open>Headers_new\<close> builds it from entries that pass the checks
  of the class as they are, such as the headers of a response that was received;
  \<open>get\<close> combines the values stored under a name with \<open>", "\<close> and answers
  \<open>null\<close> (here \<open>None\<close>) when there is none. The methods \<open>has\<close>, \<open>get\<close> and
  \<open>delete\<close> throw on an invalid name only; the program calls them with literal
  header names and with the keys of the object itself.
\<close>

type_synonym headers = "(string \<times> string) list"

definition Headers_new :: "(string \<times> string) list \<Rightarrow> headers" where
  "Headers_new init = map (\<lambda>(n, v). (lower n, v)) init"

definition Headers_get :: "headers \<Rightarrow> string \<Rightarrow> string option" where
  "Headers_get hs name =
     (case map snd (filter (\<lambda>(n, v). n = lower name) hs) of
        [] \<Rightarrow> None
      | vs \<Rightarrow> Some (join '', '' vs))"

definition Headers_has :: "headers \<Rightarrow> string \<Rightarrow> bool" where
  "Headers_has hs name = (lower name \<in> set (map fst hs))"

text \<open>The names, sorted and without duplicates, as the iterators of \<open>Headers\<close> give them.\<close>

definition Headers_keys :: "headers \<Rightarrow> string list" where
  "Headers_keys hs = sort (remdups (map fst hs))"

definition Headers_entries :: "headers \<Rightarrow> (string \<times> string) list" where
  "Headers_entries hs =
     map (\<lambda>k. (k, join '', '' (map snd (filter (\<lambda>(n, v). n = k) hs)))) (Headers_keys hs)"

definition Headers_delete :: "headers \<Rightarrow> string \<Rightarrow> headers" where
  "Headers_delete hs name = filter (\<lambda>(n, v). n \<noteq> lower name) hs"

fun set_first :: "string \<Rightarrow> string \<Rightarrow> headers \<Rightarrow> headers" where
  "set_first n v [] = []"
| "set_first n v ((k, w) # hs) =
     (if k = n then (k, v) # filter (\<lambda>(k', w'). k' \<noteq> n) hs else (k, w) # set_first n v hs)"

text \<open>
  What \<open>append\<close> and \<open>set\<close> check first. A header name is a non-empty token: letters,
  digits and the fifteen marks \<open>! # $ % & ' * + - . ^ _ ` | ~\<close>. A value is normalised
  by removing the HTTP whitespace (tab, line feed, carriage return, space) at its two
  ends, and must then hold no NUL, line feed or carriage return. Otherwise the method
  throws a \<open>TypeError\<close>; its message is the platform's own and no property depends on it.
\<close>

definition is_token_char :: "char \<Rightarrow> bool" where
  "is_token_char c =
     (let n = (of_char c :: nat)
      in (48 \<le> n \<and> n \<le> 57) \<or> (65 \<le> n \<and> n \<le> 90) \<or> (97 \<le> n \<and> n \<le> 122) \<or>
         n \<in> set [33, 35, 36, 37, 38, 39, 42, 43, 45, 46, 94, 95, 96, 124, 126])"

definition valid_name :: "string \<Rightarrow> bool" where
  "valid_name name = (name \<noteq> [] \<and> list_all is_token_char name)"

definition is_http_whitespace :: "char \<Rightarrow> bool" where
  "is_http_whitespace c = ((of_char c :: nat) \<in> set [9, 10, 13, 32])"

definition normalize_value :: "string \<Rightarrow> string" where
  "normalize_value v =
     rev (dropWhile is_http_whitespace (rev (dropWhile is_http_whitespace v)))"

definition valid_value :: "string \<Rightarrow> bool" where
  "valid_value v = list_all (\<lambda>c. (of_char c :: nat) \<notin> set [0, 10, 13]) v"

definition invalid_header :: "string \<Rightarrow> string \<Rightarrow> string \<Rightarrow> thrown" where
  "invalid_header method_name what kind =
     TypeError (method_name @ '': '' @ what @ '' is an invalid header '' @ kind @ ''.'')"

definition Headers_append :: "headers \<Rightarrow> string \<Rightarrow> string \<Rightarrow> thrown + headers" where
  "Headers_append hs name v =
     (let v' = normalize_value v
      in if \<not> valid_name name then Inl (invalid_header ''Headers.append'' name ''name'')
         else if \<not> valid_value v' then Inl (invalid_header ''Headers.append'' v' ''value'')
         else Inr (hs @ [(lower name, v')]))"

text \<open>
  \<open>new Headers(init)\<close> as the signer calls it, on an \<open>init\<close> the caller wrote: the
  entries are appended one by one, and the first invalid one makes the constructor
  throw. \<open>Headers_new\<close> above is the same list without the checks, as it is built from
  the headers of a response that was received.
\<close>

fun Headers_fill :: "headers \<Rightarrow> (string \<times> string) list \<Rightarrow> thrown + headers" where
  "Headers_fill hs [] = Inr hs"
| "Headers_fill hs ((name, v) # init) =
     (case Headers_append hs name v of
        Inl e \<Rightarrow> Inl e
      | Inr hs' \<Rightarrow> Headers_fill hs' init)"

definition new_Headers :: "(string \<times> string) list \<Rightarrow> thrown + headers" where
  "new_Headers init = Headers_fill [] init"

definition Headers_set :: "headers \<Rightarrow> string \<Rightarrow> string \<Rightarrow> thrown + headers" where
  "Headers_set hs name v =
     (let v' = normalize_value v
      in if \<not> valid_name name then Inl (invalid_header ''Headers.set'' name ''name'')
         else if \<not> valid_value v' then Inl (invalid_header ''Headers.set'' v' ''value'')
         else Inr (if Headers_has hs name then set_first (lower name) v' hs
                   else hs @ [(lower name, v')]))"

section \<open>The GCS backend adapter (\<open>storage/backend/gcs/adapter.ts\<close>)\<close>

text \<open>
  Modelled from the spec: \<open>withOptionalVersion\<close> is imported from \<open>../adapter\<close>, which is
  not among the sources. The spec gives the derived key as \<open>name[/version]\<close>, "the version
  suffix is appended only when a version is known".
\<close>

definition withOptionalVersion :: "string \<Rightarrow> string option \<Rightarrow> string" where
  "withOptionalVersion key version =
     (case version of None \<Rightarrow> key | Some v \<Rightarrow> key @ ''/'' @ v)"

text \<open>
  A request handed to \<open>client.request\<close> and the response it resolves to. A header whose
  value is \<open>undefined\<close> in the source is \<open>None\<close>. The transport options \<open>retry\<close>,
  \<open>retryConfig\<close> and \<open>signal\<close> are forwarded unchanged and belong to the client.
  \<open>data_error\<close> is \<open>response.data.error\<close> when the body carries one.
\<close>

record request =
  req_method :: string
  req_url :: string
  req_headers :: "(string \<times> string option) list"
  responseType :: "string option"
  req_data :: "string option"

record response =
  status :: int
  resp_headers :: "(string \<times> string) list"
  resp_data :: string
  data_error :: "string option"

text \<open>The authenticated client: a request and the state of the remote store give a
  rejection or a response, and the next state.\<close>

type_synonym 'st client = "request \<Rightarrow> 'st \<Rightarrow> (thrown + response) \<times> 'st"

record 'n ObjectMetadata =
  cacheControl :: string
  mimetype :: string
  eTag :: string
  lastModified :: "js_date option"
  contentRange :: "string option"
  contentLength :: 'n
  size_md :: 'n
  httpStatusCode :: int

text \<open>\<open>a || b\<close> on strings: the empty string and \<open>null\<close> are falsy.\<close>

definition or_else :: "string option \<Rightarrow> string \<Rightarrow> string" where
  "or_else v d = (case v of None \<Rightarrow> d | Some s \<Rightarrow> if s = [] then d else s)"

definition dateify :: "(string \<Rightarrow> js_date) \<Rightarrow> string option \<Rightarrow> js_date option" where
  "dateify Date_new v = (case v of None \<Rightarrow> None | Some s \<Rightarrow> Some (Date_new s))"

text \<open>
  \<open>Number(v) || 0\<close>: \<open>Number(null)\<close> is 0, and a string that is no number gives NaN
  (\<open>None\<close> of the parameter \<open>Number_of\<close>), which is falsy like 0.
\<close>

definition number_or_zero :: "(string \<Rightarrow> 'n option) \<Rightarrow> string option \<Rightarrow> 'n::zero" where
  "number_or_zero Number_of v =
     (case v of None \<Rightarrow> 0
      | Some s \<Rightarrow> (case Number_of s of None \<Rightarrow> 0 | Some n \<Rightarrow> n))"

definition buildMetadata ::
  "(string \<Rightarrow> js_date) \<Rightarrow> (string \<Rightarrow> 'n option) \<Rightarrow> response \<Rightarrow> ('n::zero) ObjectMetadata" where
  "buildMetadata Date_new Number_of r =
     (let hs = Headers_new (resp_headers r) in
      \<lparr> cacheControl = or_else (Headers_get hs ''Cache-Control'') ''no-cache'',
        mimetype = or_else (Headers_get hs ''Content-Type'') ''application/octet-stream'',
        eTag = or_else (Headers_get hs ''ETag'') '''',
        lastModified = dateify Date_new (Headers_get hs ''Last-Modified''),
        contentRange = Headers_get hs ''Range'',
        contentLength = number_or_zero Number_of (Headers_get hs ''Content-Length''),
        size_md = number_or_zero Number_of (Headers_get hs ''Content-Length''),
        httpStatusCode = status r \<rparr>)"

text \<open>
  The common tail of every operation: await the request, rethrow a rejection, throw
  \<open>response.data.error\<close> when the body carries one.
\<close>

definition send :: "'st client \<Rightarrow> request \<Rightarrow> 'st \<Rightarrow> (thrown + response) \<times> 'st" where
  "send client req st =
     (case client req st of
        (Inl e, st') \<Rightarrow> (Inl e, st')
      | (Inr r, st') \<Rightarrow>
          (case data_error r of
             Some e \<Rightarrow> (Inl (Thrown e), st')
           | None \<Rightarrow> (Inr r, st')))"

definition object_url :: "string \<Rightarrow> string \<Rightarrow> string" where
  "object_url bucketName objectName =
     ''https://'' @ bucketName @ ''.storage.googleapis.com/'' @ objectName"

record BrowserCacheHeaders =
  ifModifiedSince :: "string option"
  ifNoneMatch :: "string option"
  range_hdr :: "string option"

record 'n ObjectResponse =
  metadata :: "'n ObjectMetadata"
  or_httpStatusCode :: int
  body :: string

definition getObject ::
  "(string \<Rightarrow> js_date) \<Rightarrow> (string \<Rightarrow> 'n option) \<Rightarrow> 'st client \<Rightarrow> string \<Rightarrow> string \<Rightarrow>
   string option \<Rightarrow> BrowserCacheHeaders option \<Rightarrow> 'st \<Rightarrow> (thrown + ('n::zero) ObjectResponse) \<times> 'st" where
  "getObject Date_new Number_of client bucketName key version hdrs st =
     (let objectName = withOptionalVersion key version;
          req = \<lparr> req_method = ''GET'', req_url = object_url bucketName objectName,
                  req_headers =
                    [(''If-Modified-Since'', Option.bind hdrs ifModifiedSince),
                     (''If-None-Match'', Option.bind hdrs ifNoneMatch),
                     (''Range'', Option.bind hdrs range_hdr)],
                  responseType = Some ''stream'', req_data = None \<rparr>
      in case send client req st of
           (Inl e, st') \<Rightarrow> (Inl e, st')
         | (Inr r, st') \<Rightarrow>
             (Inr \<lparr> metadata = buildMetadata Date_new Number_of r,
                    or_httpStatusCode = status r, body = resp_data r \<rparr>, st'))"

definition headObject ::
  "(string \<Rightarrow> js_date) \<Rightarrow> (string \<Rightarrow> 'n option) \<Rightarrow> 'st client \<Rightarrow> string \<Rightarrow> string \<Rightarrow>
   string option \<Rightarrow> 'st \<Rightarrow> (thrown + ('n::zero) ObjectMetadata) \<times> 'st" where
  "headObject Date_new Number_of client bucketName key version st =
     (let objectName = withOptionalVersion key version;
          req = \<lparr> req_method = ''HEAD'', req_url = object_url bucketName objectName,
                  req_headers = [], responseType = None, req_data = None \<rparr>
      in case send client req st of
           (Inl e, st') \<Rightarrow> (Inl e, st')
         | (Inr r, st') \<Rightarrow> (Inr (buildMetadata Date_new Number_of r), st'))"

definition uploadObject ::
  "(string \<Rightarrow> js_date) \<Rightarrow> (string \<Rightarrow> 'n option) \<Rightarrow> 'st client \<Rightarrow> string \<Rightarrow> string \<Rightarrow>
   string option \<Rightarrow> string \<Rightarrow> string \<Rightarrow> string \<Rightarrow> 'st \<Rightarrow> (thrown + ('n::zero) ObjectMetadata) \<times> 'st" where
  "uploadObject Date_new Number_of client bucketName key version content contentType cacheCtl st =
     (let objectName = withOptionalVersion key version;
          req = \<lparr> req_method = ''PUT'', req_url = object_url bucketName objectName,
                  req_headers =
                    [(''Cache-Control'', Some cacheCtl), (''Content-Type'', Some contentType)],
                  responseType = None, req_data = Some content \<rparr>
      in case send client req st of
           (Inl e, st') \<Rightarrow> (Inl e, st')
         | (Inr r, st') \<Rightarrow> headObject Date_new Number_of client bucketName key version st')"

record copy_metadata =
  cm_cacheControl :: "string option"
  cm_mimetype :: "string option"

record copy_conditions =
  ifMatch :: "string option"
  cc_ifNoneMatch :: "string option"
  cc_ifModifiedSince :: "js_date option"
  ifUnmodifiedSince :: "js_date option"

text \<open>The \<open>X-Goog-Metadata-Directive\<close> header of a copy request, as the source computes it.\<close>

definition copy_directive :: "string \<Rightarrow> string \<Rightarrow> string option \<Rightarrow> string \<Rightarrow> string option \<Rightarrow> string" where
  "copy_directive bucketName source version destination destinationVersion =
     (let objectName = withOptionalVersion destination destinationVersion;
          copySource = bucketName @ ''/'' @ withOptionalVersion source version
      in if objectName \<noteq> copySource then ''COPY'' else ''REPLACE'')"

definition copyObject_request ::
  "(js_date \<Rightarrow> string) \<Rightarrow> string \<Rightarrow> string \<Rightarrow> string option \<Rightarrow> string \<Rightarrow> string option \<Rightarrow>
   copy_metadata option \<Rightarrow> copy_conditions option \<Rightarrow> request" where
  "copyObject_request toUTCString bucketName source version destination destinationVersion md conds =
     (let objectName = withOptionalVersion destination destinationVersion;
          copySource = bucketName @ ''/'' @ withOptionalVersion source version
      in \<lparr> req_method = ''PUT'', req_url = object_url bucketName objectName,
           req_headers =
             [(''Cache-Control'', Option.bind md cm_cacheControl),
              (''Content-Type'', Option.bind md cm_mimetype),
              (''X-Goog-Copy-Source'', Some copySource),
              (''X-Goog-Copy-Source-If-Match'', Option.bind conds ifMatch),
              (''X-Goog-Copy-Source-If-None-Match'', Option.bind conds cc_ifNoneMatch),
              (''X-Goog-Copy-Source-If-Unmodified-Since'',
                 map_option toUTCString (Option.bind conds ifUnmodifiedSince)),
              (''X-Goog-Copy-Source-If-Modified-Since'',
                 map_option toUTCString (Option.bind conds cc_ifModifiedSince)),
              (''X-Goog-Metadata-Directive'',
                 Some (copy_directive bucketName source version destination destinationVersion))],
           responseType = None, req_data = None \<rparr>)"

definition copyObject ::
  "(string \<Rightarrow> js_date) \<Rightarrow> (string \<Rightarrow> 'n option) \<Rightarrow> (js_date \<Rightarrow> string) \<Rightarrow> 'st client \<Rightarrow>
   string \<Rightarrow> string \<Rightarrow> string option \<Rightarrow> string \<Rightarrow> string option \<Rightarrow>
   copy_metadata option \<Rightarrow> copy_conditions option \<Rightarrow> 'st \<Rightarrow> (thrown + ('n::zero) ObjectMetadata) \<times> 'st" where
  "copyObject Date_new Number_of toUTCString client bucketName source version destination
     destinationVersion md conds st =
     (case send client
             (copyObject_request toUTCString bucketName source version destination
                destinationVersion md conds) st of
        (Inl e, st') \<Rightarrow> (Inl e, st')
      | (Inr r, st') \<Rightarrow> (Inr (buildMetadata Date_new Number_of r), st'))"

text \<open>The response \<open>r\<close> carries no header of the given name.\<close>

abbreviation carries_no :: "response \<Rightarrow> string \<Rightarrow> bool" where
  "carries_no r name \<equiv> Headers_get (Headers_new (resp_headers r)) name = None"

subsection \<open>\<open>list\<close>\<close>

record ListObject =
  Key :: string
  LastModified :: "string option"
  Size :: nat

record ListBucketResult =
  Contents :: "ListObject list option"
  NextContinuationToken :: "string option"

record list_options =
  prefix_opt :: "string option"
  delimiter :: "string option"
  nextToken :: "string option"
  startAfter :: "string option"
  beforeDate :: "js_date option"

record list_key =
  name :: string
  key_size :: nat

record list_result =
  keys :: "list_key list"
  res_nextToken :: "string option"

text \<open>Truthiness of an optional string: \<open>undefined\<close> and the empty string are falsy.\<close>

definition truthy :: "string option \<Rightarrow> bool" where
  "truthy v = (case v of None \<Rightarrow> False | Some s \<Rightarrow> s \<noteq> [])"

text \<open>\<open>v ?? ''\<close>.\<close>

definition or_empty :: "string option \<Rightarrow> string" where
  "or_empty v = (case v of None \<Rightarrow> [] | Some s \<Rightarrow> s)"

text \<open>\<open>s.replace(pat, '')\<close> with a string pattern: the first occurrence is removed.\<close>

fun remove_first :: "string \<Rightarrow> string \<Rightarrow> string" where
  "remove_first pat [] = []"
| "remove_first pat (c # cs) =
     (if take (length pat) (c # cs) = pat then drop (length pat) (c # cs)
      else c # remove_first pat cs)"

text \<open>The query of the listing request: the four parameters, those with an empty value
  deleted.\<close>

definition list_query :: "list_options option \<Rightarrow> (string \<times> string) list" where
  "list_query options =
     filter (\<lambda>(k, v). v \<noteq> [])
       [(''continuation-token'', or_empty (Option.bind options nextToken)),
        (''delimiter'', or_empty (Option.bind options delimiter)),
        (''prefix'', or_empty (Option.bind options prefix_opt)),
        (''start-after'', or_empty (Option.bind options startAfter))]"

text \<open>The callback of \<open>Contents.filter\<close>.\<close>

definition list_keep :: "(string \<Rightarrow> js_date) \<Rightarrow> list_options option \<Rightarrow> ListObject \<Rightarrow> bool" where
  "list_keep Date_new options object =
     (case Option.bind options beforeDate of
        Some before \<Rightarrow>
          (if truthy (LastModified object)
           then date_less (Date_new (the (LastModified object))) before
           else True)
      | None \<Rightarrow> True)"

text \<open>The callback of \<open>map\<close>.\<close>

definition list_entry :: "list_options option \<Rightarrow> ListObject \<Rightarrow> list_key" where
  "list_entry options object =
     (if truthy (Option.bind options prefix_opt)
      then \<lparr> name = remove_first ''/''
                      (remove_first (the (Option.bind options prefix_opt)) (Key object)),
             key_size = Size object \<rparr>
      else \<lparr> name = Key object, key_size = Size object \<rparr>)"

text \<open>
  \<open>list\<close>. The serialisation of the query (\<open>URLSearchParams.toString\<close>) and the XML
  parser are parameters; a document without \<open>ListBucketResult\<close> (\<open>None\<close>) makes the
  access \<open>data.Contents\<close> throw a \<open>TypeError\<close>.
\<close>

definition list_objects ::
  "(string \<Rightarrow> js_date) \<Rightarrow> ((string \<times> string) list \<Rightarrow> string) \<Rightarrow>
   (string \<Rightarrow> ListBucketResult option) \<Rightarrow> 'st client \<Rightarrow> string \<Rightarrow> list_options option \<Rightarrow>
   'st \<Rightarrow> (thrown + list_result) \<times> 'st" where
  "list_objects Date_new query_string parse client bucketName options st =
     (let req = \<lparr> req_method = ''GET'',
                  req_url = ''https://'' @ bucketName @ ''.storage.googleapis.com/?''
                            @ query_string (list_query options),
                  req_headers = [], responseType = Some ''text'', req_data = None \<rparr>
      in case send client req st of
           (Inl e, st') \<Rightarrow> (Inl e, st')
         | (Inr r, st') \<Rightarrow>
             (case parse (resp_data r) of
                None \<Rightarrow> (Inl (TypeError ''Cannot read properties of undefined''), st')
              | Some data \<Rightarrow>
                  (Inr \<lparr> keys = (case Contents data of
                                   None \<Rightarrow> []
                                 | Some cs \<Rightarrow>
                                     map (list_entry options)
                                       (filter (list_keep Date_new options) cs)),
                         res_nextToken = NextContinuationToken data \<rparr>, st')))"

text \<open>The modification time of a listed object: its \<open>LastModified\<close> text read as a date,
  when it is there and is a date.\<close>

definition modification_time :: "(string \<Rightarrow> js_date) \<Rightarrow> ListObject \<Rightarrow> int option" where
  "modification_time Date_new object =
     (case LastModified object of
        None \<Rightarrow> None
      | Some s \<Rightarrow> if s = [] then None
                  else (case Date_new s of TimeValue t \<Rightarrow> Some t | InvalidDate \<Rightarrow> None))"

section \<open>The request signer (\<open>storage/backend/gcs/signer.ts\<close>)\<close>

text \<open>
  A parsed \<open>URL\<close>; \<open>searchParams\<close> are its query parameters in order. The functions of
  the platform the signer calls are gathered in a record: the URL parser (\<open>None\<close> when
  \<open>new URL\<close> throws), \<open>Date.prototype.toISOString\<close> on a valid time value, the
  serialisation of query parameters, SHA-256 in hexadecimal, the conversion of a base64
  text to hexadecimal, the decimal text of a number that is not a small integer, and the
  clock read by \<open>new Date()\<close>.
\<close>

record URL =
  protocol :: string
  host :: string
  pathname :: string
  searchParams :: "(string \<times> string) list"

record platform =
  URL_new :: "string \<Rightarrow> URL option"
  toISOString :: "int \<Rightarrow> string"
  query_string :: "(string \<times> string) list \<Rightarrow> string"
  sha256_hex :: "string \<Rightarrow> string"
  base64_to_hex :: "string \<Rightarrow> string"
  number_text :: "rat \<Rightarrow> string"
  now :: js_date

text \<open>The signing identity: \<open>getCredentials\<close> resolves to the \<open>client_email\<close> (which may
  be undefined) or rejects; \<open>sign\<close> resolves to a base64 signature or rejects.\<close>

record GoogleAuth =
  getCredentials :: "thrown + string option"
  sign :: "string \<Rightarrow> string option \<Rightarrow> thrown + string"

datatype client_call = GetCredentials | Sign string "string option"

record CanonicalRequest =
  cr_method :: string
  cr_url :: string
  cr_headers :: "(string \<times> string) list"

record RequestPresigningArguments =
  signingDate :: "js_date option"
  signingEndpoint :: "string option"
  signingService :: "string option"
  signingRegion :: "string option"
  unsignableHeaders :: "string list option"
  signableHeaders :: "string list option"
  expiresIn :: "number option"
  unhoistableHeaders :: "string list option"

definition is_digit :: "char \<Rightarrow> bool" where
  "is_digit c = (48 \<le> (of_char c :: nat) \<and> (of_char c :: nat) \<le> 57)"

definition is_space :: "char \<Rightarrow> bool" where
  "is_space c = ((9 \<le> (of_char c :: nat) \<and> (of_char c :: nat) \<le> 13) \<or> (of_char c :: nat) = 32)"

text \<open>\<open>s.replace(/\.\d+/, '')\<close>: the first dot that is followed by digits goes, with them.\<close>

fun strip_fraction :: "string \<Rightarrow> string" where
  "strip_fraction [] = []"
| "strip_fraction (c # cs) =
     (if c = CHR ''.'' \<and> cs \<noteq> [] \<and> is_digit (hd cs) then dropWhile is_digit cs
      else c # strip_fraction cs)"

definition toISOBasicString :: "platform \<Rightarrow> int \<Rightarrow> string" where
  "toISOBasicString P t =
     filter (\<lambda>c. c \<noteq> CHR ''-'' \<and> c \<noteq> CHR '':'') (strip_fraction (toISOString P t))"

text \<open>\<open>CredentialScope.toString\<close>.\<close>

definition CredentialScope_toString :: "platform \<Rightarrow> int \<Rightarrow> string \<Rightarrow> string \<Rightarrow> string \<Rightarrow> string" where
  "CredentialScope_toString P date location service requestType =
     join ''/'' [take 8 (toISOBasicString P date), location, service, requestType]"

text \<open>\<open>value.replaceAll(/\s+/g, ' ').trim()\<close>.\<close>

fun collapse_space :: "string \<Rightarrow> string" where
  "collapse_space [] = []"
| "collapse_space [c] = (if is_space c then '' '' else [c])"
| "collapse_space (c # d # cs) =
     (if is_space c then (if is_space d then collapse_space (d # cs)
                          else CHR '' '' # collapse_space (d # cs))
      else c # collapse_space (d # cs))"

definition trim :: "string \<Rightarrow> string" where
  "trim s = rev (dropWhile is_space (rev (dropWhile is_space s)))"

definition hashCanonicalRequest :: "platform \<Rightarrow> string \<Rightarrow> URL \<Rightarrow> headers \<Rightarrow> string \<Rightarrow> string" where
  "hashCanonicalRequest P meth u hs payload =
     (let canonicalQueryString = query_string P (searchParams u);
          canonicalHeaders =
            join [CHR 0x0A] (map (\<lambda>(k, v). k @ '':'' @ trim (collapse_space v)) (Headers_entries hs));
          signedHeaders = join '';'' (Headers_keys hs);
          data = join [CHR 0x0A]
                   [meth, pathname u, canonicalQueryString, canonicalHeaders @ [CHR 0x0A],
                    signedHeaders, payload]
      in sha256_hex P data)"

text \<open>
  \<open>n.toString(10)\<close>. An integer of magnitude at most \<open>2\<^sup>5\<^sup>3\<close> is written with its decimal
  digits; for every other finite value the text is the platform's (\<open>number_text\<close>).
\<close>

fun digits :: "nat \<Rightarrow> string" where
  "digits n = (if n < 10 then [char_of (48 + n)] else digits (n div 10) @ [char_of (48 + n mod 10)])"

declare digits.simps [simp del]

definition integer_text :: "int \<Rightarrow> string" where
  "integer_text i = (if i < 0 then CHR ''-'' # digits (nat (- i)) else digits (nat i))"

fun number_toString :: "platform \<Rightarrow> number \<Rightarrow> string" where
  "number_toString P (Finite x) =
     (if of_int \<lfloor>x\<rfloor> = x \<and> \<bar>x\<bar> \<le> 9007199254740992 then integer_text \<lfloor>x\<rfloor>
      else number_text P x)"
| "number_toString P NaN = ''NaN''"
| "number_toString P PosInfinity = ''Infinity''"
| "number_toString P NegInfinity = ''-Infinity''"

text \<open>
  The first loop of \<open>getSignedUrl\<close>, over a snapshot of the entries: a header that is
  not unhoistable moves to the query.
\<close>

fun hoist :: "string list \<Rightarrow> (string \<times> string) list \<Rightarrow> URL \<times> headers \<Rightarrow> URL \<times> headers" where
  "hoist unhoistable [] (u, hs) = (u, hs)"
| "hoist unhoistable ((key, v) # es) (u, hs) =
     (if key \<notin> set unhoistable
      then hoist unhoistable es
             (u\<lparr>searchParams := searchParams u @ [(key, v)]\<rparr>, Headers_delete hs key)
      else hoist unhoistable es (u, hs))"

text \<open>
  The second loop iterates over the live key iterator of \<open>headers\<close> while deleting from
  it: the iterator holds an index into the current sorted keys.
\<close>

function drop_unsignable :: "string list \<Rightarrow> string list \<Rightarrow> headers \<Rightarrow> nat \<Rightarrow> headers" where
  "drop_unsignable unsignable signable hs i =
     (if i < length (Headers_keys hs)
      then (let key = Headers_keys hs ! i
            in if key \<in> set unsignable \<and> key \<notin> set signable
               then drop_unsignable unsignable signable (Headers_delete hs key) (i + 1)
               else drop_unsignable unsignable signable hs (i + 1))
      else hs)"
  by pat_completeness auto
termination
proof (relation "measure (\<lambda>(unsignable, signable, hs, i). length (Headers_keys hs) - i)")
  fix unsignable signable :: "string list" and hs :: headers and i :: nat and key
  assume "i < length (Headers_keys hs)"
  have "set (map fst (Headers_delete hs key)) \<subseteq> set (map fst hs)"
    by (auto simp: Headers_delete_def)
  then have "card (set (map fst (Headers_delete hs key))) \<le> card (set (map fst hs))"
    by (intro card_mono) auto
  then have "length (Headers_keys (Headers_delete hs key)) \<le> length (Headers_keys hs)"
    by (simp add: Headers_keys_def length_remdups_card_conv)
  with \<open>i < length (Headers_keys hs)\<close>
  show "((unsignable, signable, Headers_delete hs key, i + 1), (unsignable, signable, hs, i))
          \<in> measure (\<lambda>(unsignable, signable, hs, i). length (Headers_keys hs) - i)"
    by simp
qed auto

declare drop_unsignable.simps [simp del]

text \<open>
  \<open>getSignedUrl\<close>, in three parts. \<open>prepare\<close> is its body up to the end of the two
  loops: it fails when \<open>new Headers\<close>, \<open>new URL\<close> or \<open>headers.set\<close> throws.
  \<open>getSignedUrl\<close> itself reads the signing date and the expiry and validates the
  expiry. \<open>presign\<close> is the body from \<open>await client.getCredentials()\<close> to the end, given
  the URL and the headers the two loops left, the signing date and the expiry. The
  second component of the result lists the calls made to the signing identity, in order.
\<close>

definition presign ::
  "platform \<Rightarrow> GoogleAuth \<Rightarrow> CanonicalRequest \<Rightarrow> RequestPresigningArguments option \<Rightarrow>
   URL \<Rightarrow> headers \<Rightarrow> js_date \<Rightarrow> number \<Rightarrow> (thrown + URL) \<times> client_call list" where
  "presign P client request options url1 headers3 signingDate' expiresIn' =
     (case getCredentials client of
        Inl e \<Rightarrow> (Inl e, [GetCredentials])
      | Inr client_email \<Rightarrow>
          (case signingDate' of
             InvalidDate \<Rightarrow> (Inl (RangeError ''Invalid time value''), [GetCredentials])
           | TimeValue t \<Rightarrow>
               (let credentialScope =
                      CredentialScope_toString P t
                        (case Option.bind options signingRegion of
                           None \<Rightarrow> ''auto'' | Some r \<Rightarrow> r)
                        (case Option.bind options signingService of
                           None \<Rightarrow> ''storage'' | Some s \<Rightarrow> s)
                        ''goog4_request'';
                    signingAlgorithm = ''GOOG4-RSA-SHA256'';
                    signedHeaders = join '';'' (Headers_keys headers3);
                    url2 = url1\<lparr>searchParams :=
                             sort_key fst
                               (searchParams url1 @
                                [(''X-Goog-Algorithm'', signingAlgorithm),
                                 (''X-Goog-Credential'',
                                    (case client_email of
                                       None \<Rightarrow> ''undefined'' | Some m \<Rightarrow> m)
                                    @ ''/'' @ credentialScope),
                                 (''X-Goog-Date'', toISOBasicString P t),
                                 (''X-Goog-Expires'', number_toString P expiresIn'),
                                 (''X-Goog-SignedHeaders'', signedHeaders)])\<rparr>;
                    contentHash = (case Headers_get headers3 ''X-Goog-Content-SHA256'' of
                                     None \<Rightarrow> ''UNSIGNED-PAYLOAD'' | Some h \<Rightarrow> h);
                    hash = hashCanonicalRequest P (cr_method request) url2 headers3 contentHash;
                    activeDatetime = toISOBasicString P t;
                    stringToSign = join [CHR 0x0A]
                      [signingAlgorithm, activeDatetime, credentialScope, hash];
                    endpoint = Option.bind options signingEndpoint
                in case sign client stringToSign endpoint of
                     Inl e \<Rightarrow> (Inl e, [GetCredentials, Sign stringToSign endpoint])
                   | Inr signature \<Rightarrow>
                       (Inr (url2\<lparr>searchParams := searchParams url2 @
                               [(''X-Goog-Signature'', base64_to_hex P signature)]\<rparr>),
                        [GetCredentials, Sign stringToSign endpoint]))))"

definition prepare ::
  "platform \<Rightarrow> CanonicalRequest \<Rightarrow> RequestPresigningArguments option \<Rightarrow> thrown + URL \<times> headers" where
  "prepare P request options =
     (case new_Headers (cr_headers request) of
        Inl e \<Rightarrow> Inl e
      | Inr headers0 \<Rightarrow>
          (case URL_new P (cr_url request) of
             None \<Rightarrow> Inl (TypeError ''Invalid URL'')
           | Some url0 \<Rightarrow>
               (case (if \<not> Headers_has headers0 ''Host''
                      then Headers_set headers0 ''Host'' (host url0) else Inr headers0) of
                  Inl e \<Rightarrow> Inl e
                | Inr headers1 \<Rightarrow>
                    (let unhoistable = (case Option.bind options unhoistableHeaders of
                                          None \<Rightarrow> Headers_keys headers1 | Some s \<Rightarrow> s);
                         unsignable = (case Option.bind options unsignableHeaders of
                                         None \<Rightarrow> [] | Some s \<Rightarrow> s);
                         signable = (case Option.bind options signableHeaders of
                                       None \<Rightarrow> [] | Some s \<Rightarrow> s);
                         (url1, headers2) =
                           hoist unhoistable (Headers_entries headers1) (url0, headers1);
                         headers3 = drop_unsignable unsignable signable headers2 0
                     in Inr (url1, headers3)))))"

definition getSignedUrl ::
  "platform \<Rightarrow> GoogleAuth \<Rightarrow> CanonicalRequest \<Rightarrow> RequestPresigningArguments option \<Rightarrow>
   (thrown + URL) \<times> client_call list" where
  "getSignedUrl P client request options =
     (case prepare P request options of
        Inl e \<Rightarrow> (Inl e, [])
      | Inr (url1, headers3) \<Rightarrow>
          (let signingDate' = (case Option.bind options signingDate of
                                None \<Rightarrow> now P | Some d \<Rightarrow> d);
               expiresIn' = (case Option.bind options expiresIn of
                               None \<Rightarrow> Finite 900 | Some e \<Rightarrow> e)
           in if number_greater expiresIn' 604800
              then (Inl (RangeError ''The longest expiration value is 604800 seconds (7 days)''), [])
              else presign P client request options url1 headers3 signingDate' expiresIn'))"

text \<open>\<open>url.searchParams.getAll(key)\<close>.\<close>

definition searchParams_getAll :: "URL \<Rightarrow> string \<Rightarrow> string list" where
  "searchParams_getAll u key = map snd (filter (\<lambda>p. fst p = key) (searchParams u))"

text \<open>\<open>privateAssetUrl\<close> of the GCS backend.\<close>

definition privateAssetUrl ::
  "platform \<Rightarrow> GoogleAuth \<Rightarrow> string \<Rightarrow> string \<Rightarrow> string option \<Rightarrow> (thrown + URL) \<times> client_call list" where
  "privateAssetUrl P client bucketName key version =
     (let objectName = withOptionalVersion key version;
          u = object_url bucketName objectName;
          request = \<lparr> cr_method = ''GET'', cr_url = u, cr_headers = [] \<rparr>
      in getSignedUrl P client request
           (Some \<lparr> signingDate = None, signingEndpoint = None, signingService = None,
                   signingRegion = None, unsignableHeaders = None, signableHeaders = None,
                   expiresIn = Some (Finite 600), unhoistableHeaders = None \<rparr>))"

subsection \<open>Sample values for evaluating the signer\<close>

definition sample_platform :: platform where
  "sample_platform =
     \<lparr> URL_new = (\<lambda>s. if s = [] then None
                       else Some \<lparr> protocol = ''https:'', host = ''b.storage.googleapis.com'',
                                   pathname = ''/k'', searchParams = [] \<rparr>),
       toISOString = (\<lambda>t. ''2024-01-01T00:00:00.000Z''),
       query_string = (\<lambda>q. join ''&'' (map (\<lambda>(k, v). k @ ''='' @ v) q)),
       sha256_hex = (\<lambda>s. ''00''),
       base64_to_hex = (\<lambda>s. ''ff''),
       number_text = (\<lambda>x. ''0.5''),
       now = TimeValue 0 \<rparr>"

definition sample_client :: GoogleAuth where
  "sample_client = \<lparr> getCredentials = Inr (Some ''sa@example''), sign = (\<lambda>s e. Inr ''c2ln'') \<rparr>"




text \<open>
  A platform whose URL parser reads the query of an \<open>https\<close> URL: the host runs to the
  first slash, the path to the first question mark, and the rest is split at \<open>&\<close> and
  \<open>=\<close>, as \<open>new URL\<close> does on a text without escapes.
\<close>

fun split_at :: "char \<Rightarrow> string \<Rightarrow> string list" where
  "split_at sep [] = [[]]"
| "split_at sep (c # cs) =
     (if c = sep then [] # split_at sep cs
      else (case split_at sep cs of [] \<Rightarrow> [[c]] | w # ws \<Rightarrow> (c # w) # ws))"

definition parse_query :: "string \<Rightarrow> (string \<times> string) list" where
  "parse_query q =
     map (\<lambda>p. (takeWhile (\<lambda>c. c \<noteq> CHR ''='') p, drop 1 (dropWhile (\<lambda>c. c \<noteq> CHR ''='') p)))
       (filter (\<lambda>p. p \<noteq> []) (split_at CHR ''&'' q))"

definition parse_https :: "string \<Rightarrow> URL option" where
  "parse_https s =
     (if take 8 s = ''https://''
      then (let rest = drop 8 s;
                authority = takeWhile (\<lambda>c. c \<noteq> CHR ''/'') rest;
                after = dropWhile (\<lambda>c. c \<noteq> CHR ''/'') rest
            in Some \<lparr> protocol = ''https:'', host = authority,
                      pathname = takeWhile (\<lambda>c. c \<noteq> CHR ''?'') after,
                      searchParams = parse_query (drop 1 (dropWhile (\<lambda>c. c \<noteq> CHR ''?'') after)) \<rparr>)
      else None)"

definition parsing_platform :: platform where
  "parsing_platform = sample_platform \<lparr> URL_new := parse_https \<rparr>"

section \<open>The tenant connection pool (\<open>internal/database/connection.ts\<close>)\<close>

text \<open>The values read from \<open>getConfig()\<close>.\<close>

record config =
  isMultitenant :: bool
  databaseSSLRootCert :: "string option"
  databaseMaxConnections :: nat
  databaseFreePoolAfterInactivity :: nat
  databaseConnectionTimeout :: nat
  dbSearchPath :: string
  dbPostgresVersion :: "string option"

record User =
  jwt :: string
  payload_role :: "string option"

text \<open>\<open>TenantConnectionOptions\<close>; the request fields \<open>headers\<close>, \<open>method\<close>, \<open>path\<close> and
  \<open>operation\<close>, which only \<open>setScope\<close> reads, are left out.\<close>

record TenantConnectionOptions =
  user :: User
  superUser :: User
  tenantId :: string
  dbUrl :: string
  isExternalPool :: "bool option"
  maxConnections :: nat

text \<open>\<open>s.split(',')\<close>.\<close>

fun split_comma :: "string \<Rightarrow> string list" where
  "split_comma [] = [[]]"
| "split_comma (c # cs) =
     (if c = CHR '','' then [] # split_comma cs
      else (case split_comma cs of [] \<Rightarrow> [[c]] | w # ws \<Rightarrow> (c # w) # ws))"

definition searchPath :: "config \<Rightarrow> string list" where
  "searchPath cfg =
     filter (\<lambda>s. s \<noteq> []) ([''storage'', ''public'', ''extensions''] @ split_comma (dbSearchPath cfg))"

text \<open>
  A pool made by \<open>knex(...)\<close>: its identity (every call of \<open>knex\<close> makes a new object)
  and the settings \<open>create\<close> gives it. \<open>custom_release\<close> says that the release policy of
  the pool was replaced.
\<close>

record Knex =
  pool_id :: nat
  pool_searchPath :: "string list option"
  pool_min :: nat
  pool_max :: nat
  acquireTimeoutMillis :: nat
  idleTimeoutMillis :: nat
  reapIntervalMillis :: "nat option"
  connectionString :: string
  connectionTimeoutMillis :: nat
  ssl_ca :: "string option"
  acquireConnectionTimeout :: nat
  custom_release :: bool

record TenantConnection =
  pool :: Knex
  tc_options :: TenantConnectionOptions
  role :: string

text \<open>
  The process-wide state: the cache \<open>connections\<close> (a \<open>TTLCache\<close>: every entry with
  the time at which it expires), the number of pools made so far, and the gauge
  \<open>DbActivePool\<close> by its label \<open>is_external\<close>.
\<close>

record db_state =
  connections :: "string \<rightharpoonup> Knex \<times> nat"
  pools_made :: nat
  DbActivePool :: "bool \<Rightarrow> int"

text \<open>
  \<open>TTLCache.get\<close> with \<open>updateAgeOnGet: true\<close> at time \<open>time\<close>: the stored value, whose
  expiry is set anew; \<open>TTLCache.set\<close>; and the timer of the cache, which removes (and
  disposes of) the entries whose time has come.
\<close>

definition TTLCache_get ::
  "nat \<Rightarrow> nat \<Rightarrow> (string \<rightharpoonup> Knex \<times> nat) \<Rightarrow> string \<Rightarrow> Knex option \<times> (string \<rightharpoonup> Knex \<times> nat)" where
  "TTLCache_get ttl time cache k =
     (case cache k of
        None \<Rightarrow> (None, cache)
      | Some (v, expires) \<Rightarrow> (Some v, cache(k \<mapsto> (v, time + ttl))))"

definition TTLCache_set ::
  "nat \<Rightarrow> nat \<Rightarrow> (string \<rightharpoonup> Knex \<times> nat) \<Rightarrow> string \<Rightarrow> Knex \<Rightarrow> (string \<rightharpoonup> Knex \<times> nat)" where
  "TTLCache_set ttl time cache k v = cache(k \<mapsto> (v, time + ttl))"

definition purgeStale :: "nat \<Rightarrow> db_state \<Rightarrow> db_state" where
  "purgeStale time s =
     s\<lparr>connections :=
         (\<lambda>k. case connections s k of
                 None \<Rightarrow> None
               | Some (v, expires) \<Rightarrow> if expires \<le> time then None else Some (v, expires))\<rparr>"

definition role_of :: "TenantConnectionOptions \<Rightarrow> string" where
  "role_of opts = or_else (payload_role (user opts)) ''anon''"

text \<open>\<open>TenantConnection.create\<close> at time \<open>time\<close>.\<close>

definition create :: "config \<Rightarrow> nat \<Rightarrow> TenantConnectionOptions \<Rightarrow> db_state \<Rightarrow> TenantConnection \<times> db_state" where
  "create cfg time opts s =
     (let connectionString' = dbUrl opts;
          ttl = databaseFreePoolAfterInactivity cfg
      in case TTLCache_get ttl time (connections s) connectionString' of
           (Some knexPool, cache') \<Rightarrow>
             (\<lparr> pool = knexPool, tc_options = opts, role = role_of opts \<rparr>,
              s\<lparr>connections := cache'\<rparr>)
         | (None, cache') \<Rightarrow>
             (let isExternal = (isExternalPool opts = Some True);
                  knexPool =
                    \<lparr> pool_id = pools_made s,
                      pool_searchPath = (if isExternal then None else Some (searchPath cfg)),
                      pool_min = 0,
                      pool_max = (if maxConnections opts \<noteq> 0 then maxConnections opts
                                  else databaseMaxConnections cfg),
                      acquireTimeoutMillis = databaseConnectionTimeout cfg,
                      idleTimeoutMillis =
                        (if isExternal then 100 else databaseFreePoolAfterInactivity cfg),
                      reapIntervalMillis = (if isExternal then Some 50 else None),
                      connectionString = connectionString',
                      connectionTimeoutMillis = databaseConnectionTimeout cfg,
                      ssl_ca = databaseSSLRootCert cfg,
                      acquireConnectionTimeout = databaseConnectionTimeout cfg,
                      custom_release = False \<rparr>;
                  s1 = s\<lparr> connections := cache', pools_made := pools_made s + 1,
                         DbActivePool := (DbActivePool s)(isExternal := DbActivePool s isExternal + 1) \<rparr>
              in if \<not> isExternal \<or> \<not> isMultitenant cfg
                 then (let knexPool' = knexPool\<lparr> idleTimeoutMillis := 0,
                                                reapIntervalMillis := Some 2147483647,
                                                custom_release := True \<rparr>
                       in (\<lparr> pool = knexPool', tc_options = opts, role = role_of opts \<rparr>,
                           s1\<lparr>connections :=
                                TTLCache_set ttl time (connections s1) connectionString' knexPool'\<rparr>))
                 else (\<lparr> pool = knexPool, tc_options = opts, role = role_of opts \<rparr>, s1)))"

subsection \<open>Sample values for evaluating the connection pool\<close>

definition sample_config :: "bool \<Rightarrow> config" where
  "sample_config multitenant =
     \<lparr> isMultitenant = multitenant, databaseSSLRootCert = None, databaseMaxConnections = 20,
       databaseFreePoolAfterInactivity = 60000, databaseConnectionTimeout = 3000,
       dbSearchPath = '''', dbPostgresVersion = None \<rparr>"

definition sample_tenant :: "bool \<Rightarrow> TenantConnectionOptions" where
  "sample_tenant external =
     \<lparr> user = \<lparr> jwt = ''jwt'', payload_role = Some ''authenticated'' \<rparr>,
       superUser = \<lparr> jwt = ''service'', payload_role = Some ''service_role'' \<rparr>,
       tenantId = ''tenant'', dbUrl = ''postgres://db/tenant'',
       isExternalPool = Some external, maxConnections = 0 \<rparr>"

definition no_pools :: db_state where
  "no_pools = \<lparr> connections = Map.empty, pools_made = 0, DbActivePool = (\<lambda>external. 0) \<rparr>"

subsection \<open>\<open>transaction\<close>\<close>

text \<open>
  The values thrown in this module: \<open>PgDatabaseError\<close> is the class \<open>DatabaseError\<close> of
  the driver, with its code and message, \<open>KnexTimeoutError\<close> the acquisition timeout of
  the pool, \<open>JsError\<close> any other \<open>Error\<close>.

  Modelled from the spec: the factory \<open>ERRORS\<close> of \<open>@internal/errors\<close> is not among the
  sources. The error taxonomy of the spec names InternalError, DatabaseError and
  DatabaseTimeout; they are the constructors \<open>ERRORS_InternalError\<close>,
  \<open>ERRORS_DatabaseError\<close> (with their message) and \<open>ERRORS_DatabaseTimeout\<close> (with the
  error it wraps).
\<close>

datatype db_error =
    PgDatabaseError string string
  | KnexTimeoutError string
  | JsError string
  | ERRORS_InternalError string
  | ERRORS_DatabaseError string
  | ERRORS_DatabaseTimeout db_error

fun message_of :: "db_error \<Rightarrow> string" where
  "message_of (PgDatabaseError code msg) = msg"
| "message_of (KnexTimeoutError msg) = msg"
| "message_of (JsError msg) = msg"
| "message_of (ERRORS_InternalError msg) = msg"
| "message_of (ERRORS_DatabaseError msg) = msg"
| "message_of (ERRORS_DatabaseTimeout e) = message_of e"

text \<open>\<open>s.includes(pat)\<close>.\<close>

fun string_includes :: "string \<Rightarrow> string \<Rightarrow> bool" where
  "string_includes [] pat = (pat = [])"
| "string_includes (c # cs) pat = (take (length pat) (c # cs) = pat \<or> string_includes cs pat)"

text \<open>
  A transaction object as \<open>transaction\<close> uses it: what \<open>isCompleted()\<close> answers, how
  \<open>executionPromise\<close> settles (\<open>None\<close>: it resolves), and how the statement setting the
  search path and \<open>rollback()\<close> settle.
\<close>

record Transaction =
  tnx_id :: nat
  isCompleted :: bool
  executionPromise :: "db_error option"
  raw_result :: "db_error option"
  rollback_result :: "db_error option"

datatype db_call = PoolTransaction nat | AwaitExecution | SetSearchPath string | Rollback

text \<open>
  The library \<open>async-retry\<close>, as \<open>transaction\<close> uses it. An attempt resolves, rejects
  (which asks for a retry) or bails out. \<open>retry\<close> runs attempt \<open>n\<close>; after a rejection it
  gives up when the time since the start of the operation, \<open>elapsed n\<close>, has reached
  \<open>maxRetryTime\<close> or when no delay is left in \<open>timeouts\<close> (the library draws \<open>retries\<close>
  delays between \<open>minTimeout\<close> and \<open>maxTimeout\<close>), and rejects with the error whose
  message is the most frequent among those seen. The result comes with the number of
  attempts made.
\<close>

record retry_options =
  minTimeout :: nat
  maxTimeout :: nat
  maxRetryTime :: nat
  retries :: nat

datatype 'a attempt = Resolved 'a | Rejected db_error | Bailed db_error

fun mainError_loop :: "db_error list \<Rightarrow> db_error list \<Rightarrow> db_error \<Rightarrow> nat \<Rightarrow> db_error" where
  "mainError_loop seen [] main mainCount = main"
| "mainError_loop seen (e # es) main mainCount =
     (let count = length (filter (\<lambda>x. message_of x = message_of e) seen) + 1
      in if count \<ge> mainCount then mainError_loop (seen @ [e]) es e count
         else mainError_loop (seen @ [e]) es main mainCount)"

definition mainError :: "db_error \<Rightarrow> db_error list \<Rightarrow> db_error" where
  "mainError e es = mainError_loop [e] es e 1"

fun retry ::
  "retry_options \<Rightarrow> (nat \<Rightarrow> nat) \<Rightarrow> (nat \<Rightarrow> 'a attempt) \<Rightarrow> nat \<Rightarrow> db_error list \<Rightarrow> nat list \<Rightarrow>
   (db_error + 'a) \<times> nat" where
  "retry opts elapsed fn n errors [] =
     (case fn n of
        Resolved v \<Rightarrow> (Inr v, Suc n)
      | Bailed e \<Rightarrow> (Inl e, Suc n)
      | Rejected e \<Rightarrow>
          if elapsed n \<ge> maxRetryTime opts
          then (Inl (mainError (JsError ''RetryOperation timeout occurred'') (errors @ [e])), Suc n)
          else (Inl (case errors of [] \<Rightarrow> e | x # xs \<Rightarrow> mainError x (xs @ [e])), Suc n))"
| "retry opts elapsed fn n errors (delay # timeouts) =
     (case fn n of
        Resolved v \<Rightarrow> (Inr v, Suc n)
      | Bailed e \<Rightarrow> (Inl e, Suc n)
      | Rejected e \<Rightarrow>
          if elapsed n \<ge> maxRetryTime opts
          then (Inl (mainError (JsError ''RetryOperation timeout occurred'') (errors @ [e])), Suc n)
          else retry opts elapsed fn (Suc n) (errors @ [e]) timeouts)"

text \<open>The error \<open>transaction\<close> retries on.\<close>

fun is_transient :: "db_error \<Rightarrow> bool" where
  "is_transient (PgDatabaseError code msg) =
     (code = ''08P01'' \<and> string_includes msg ''no more connections allowed'')"
| "is_transient _ = False"

text \<open>The function \<open>transaction\<close> hands to \<open>retry\<close>, on the outcome of
  \<open>pool.transaction()\<close>.\<close>

definition acquire_attempt :: "db_error + Transaction option \<Rightarrow> Transaction option attempt" where
  "acquire_attempt r =
     (case r of
        Inr tnx \<Rightarrow> Resolved tnx
      | Inl e \<Rightarrow> if is_transient e then Rejected e else Bailed e)"

definition transaction_retry_options :: retry_options where
  "transaction_retry_options =
     \<lparr> minTimeout = 50, maxTimeout = 200, maxRetryTime = 3000, retries = 10 \<rparr>"

text \<open>The \<open>catch\<close> around the body of \<open>transaction\<close>.\<close>

fun surface :: "db_error \<Rightarrow> db_error" where
  "surface (KnexTimeoutError msg) = ERRORS_DatabaseTimeout (KnexTimeoutError msg)"
| "surface e = e"

text \<open>
  \<open>transaction(instance?)\<close> on a connection. \<open>pool_transaction p n\<close> is the outcome of
  the call \<open>p.transaction()\<close> of attempt \<open>n\<close> (a rejection, or the value it resolves to,
  \<open>None\<close> when that is falsy). \<open>acquire_transaction\<close> is the first statement, the call of
  \<open>retry\<close>. The result of \<open>transaction\<close> comes with the calls made on the pool and on
  the transaction, in order.
\<close>

definition acquire_transaction ::
  "(Knex \<Rightarrow> nat \<Rightarrow> db_error + Transaction option) \<Rightarrow> (nat \<Rightarrow> nat) \<Rightarrow> nat list \<Rightarrow>
   TenantConnection \<Rightarrow> Knex option \<Rightarrow> (db_error + Transaction option) \<times> nat" where
  "acquire_transaction pool_transaction elapsed timeouts this instance =
     (let p = (case instance of Some i \<Rightarrow> i | None \<Rightarrow> pool this)
      in retry transaction_retry_options elapsed (\<lambda>n. acquire_attempt (pool_transaction p n))
           0 [] timeouts)"

definition transaction ::
  "config \<Rightarrow> (Knex \<Rightarrow> nat \<Rightarrow> db_error + Transaction option) \<Rightarrow> (nat \<Rightarrow> nat) \<Rightarrow> nat list \<Rightarrow>
   TenantConnection \<Rightarrow> Knex option \<Rightarrow> (db_error + Transaction) \<times> db_call list" where
  "transaction cfg pool_transaction elapsed timeouts this instance =
     (let p = (case instance of Some i \<Rightarrow> i | None \<Rightarrow> pool this);
          (r, attempts) = acquire_transaction pool_transaction elapsed timeouts this instance;
          calls = replicate attempts (PoolTransaction (pool_id p))
      in case r of
           Inl e \<Rightarrow> (Inl (surface e), calls)
         | Inr None \<Rightarrow> (Inl (surface (ERRORS_InternalError ''Could not create transaction'')), calls)
         | Inr (Some tnx) \<Rightarrow>
             if instance = None \<and> isExternalPool (tc_options this) = Some True
             then
               (if isCompleted tnx
                then (case executionPromise tnx of
                        Some e \<Rightarrow> (Inl (surface e), calls @ [AwaitExecution])
                      | None \<Rightarrow>
                          (Inl (surface (ERRORS_DatabaseError ''Transaction already completed'')),
                           calls @ [AwaitExecution]))
                else
                  (case raw_result tnx of
                     None \<Rightarrow> (Inr tnx, calls @ [SetSearchPath (join '', '' (searchPath cfg))])
                   | Some e \<Rightarrow>
                       (case rollback_result tnx of
                          None \<Rightarrow>
                            (Inl (surface e),
                             calls @ [SetSearchPath (join '', '' (searchPath cfg)), Rollback])
                        | Some r \<Rightarrow>
                            (Inl (surface r),
                             calls @ [SetSearchPath (join '', '' (searchPath cfg)), Rollback]))))
             else (Inr tnx, calls))"

text \<open>The number of calls of \<open>pool.transaction()\<close> among the calls made.\<close>

definition acquisitions :: "db_call list \<Rightarrow> nat" where
  "acquisitions calls =
     length (filter (\<lambda>c. case c of PoolTransaction p \<Rightarrow> True | _ \<Rightarrow> False) calls)"

definition sample_transaction :: "bool \<Rightarrow> db_error option \<Rightarrow> Transaction" where
  "sample_transaction completed outcome =
     \<lparr> tnx_id = 1, isCompleted = completed, executionPromise = outcome,
       raw_result = None, rollback_result = None \<rparr>"

definition sample_connection :: "bool \<Rightarrow> TenantConnection" where
  "sample_connection external =
     fst (create (sample_config False) 0 (sample_tenant external) no_pools)"

definition too_many_connections :: db_error where
  "too_many_connections = PgDatabaseError ''08P01'' ''no more connections allowed (max_client_conn)''"

definition busy_then_timeout :: "Knex \<Rightarrow> nat \<Rightarrow> db_error + Transaction option" where
  "busy_then_timeout p n =
     (if n < 2 then Inl too_many_connections else Inl (KnexTimeoutError ''acquire timeout''))"

definition sample_delays :: "nat list" where
  "sample_delays = [57, 113, 200, 200, 200, 200, 200, 200, 200, 200]"

section \<open>The base32 codec (\<open>internal/auth/base64.ts\<close>)\<close>

text \<open>
  A \<open>Buffer\<close> is a list of bytes. The bit operators of JavaScript work on 32-bit
  integers: \<open>a << n\<close> and \<open>a >> n\<close> shift by \<open>n\<close> modulo 32, the latter keeping the sign.
  Reading a buffer out of range gives \<open>undefined\<close>, which these operators take as 0;
  writing out of range does nothing.
\<close>

type_synonym byte = "8 word"
type_synonym int32 = "32 word"

definition alphabet :: string where
  "alphabet = ''ABCDEFGHIJKLMNOPQRSTUVWXYZ234567''"

definition padding :: char where
  "padding = CHR ''=''"

definition mask :: int32 where
  "mask = 0x1f"

definition js_shl :: "int32 \<Rightarrow> int \<Rightarrow> int32" where
  "js_shl a n = push_bit (nat (n mod 32)) a"

definition js_shr :: "int32 \<Rightarrow> int \<Rightarrow> int32" where
  "js_shr a n = signed_drop_bit (nat (n mod 32)) a"

definition byte_at :: "byte list \<Rightarrow> nat \<Rightarrow> int32" where
  "byte_at buffer i = (if i < length buffer then ucast (buffer ! i) else 0)"

text \<open>\<open>alphabet.indexOf(String.fromCharCode(code))\<close>.\<close>

fun indexOf_from :: "string \<Rightarrow> char \<Rightarrow> int \<Rightarrow> int" where
  "indexOf_from [] c n = - 1"
| "indexOf_from (a # as) c n = (if a = c then n else indexOf_from as c (n + 1))"

definition fromCharCode :: "char \<Rightarrow> int" where
  "fromCharCode code = indexOf_from alphabet code 0"

text \<open>The loop of \<open>encode\<close>, on the variables \<open>i\<close>, \<open>j\<close>, \<open>k\<close> and \<open>result\<close>.\<close>

function encode_loop :: "byte list \<Rightarrow> nat \<Rightarrow> nat \<Rightarrow> int \<Rightarrow> string \<Rightarrow> string" where
  "encode_loop buffer i j k result =
     (if i < length buffer
      then (let k' = (if k + 5 \<ge> 5 then k + 5 - 8 else k + 5);
                x = (if k' < 0
                     then js_shr (byte_at buffer i) (- k') OR js_shl (byte_at buffer (i + 1)) (8 + k')
                     else js_shl (byte_at buffer i) k' OR js_shr (byte_at buffer (i + 1)) (8 - k'));
                i' = (if k' < 0 then i else i + 1)
            in encode_loop buffer i' (j + 1) k' (result[j := alphabet ! unat (x AND mask)]))
      else result)"
  by pat_completeness auto
termination
  by (relation "measures [\<lambda>(buffer, i, j, k, result). length buffer - i,
                          \<lambda>(buffer, i, j, k, result). if k \<ge> 0 then 4 else nat (- k)]")
     (auto split: if_splits)

declare encode_loop.simps [simp del]

definition encode :: "byte list \<Rightarrow> string" where
  "encode buffer =
     encode_loop buffer 0 0 0 (replicate ((length buffer + 4) div 5 * 8) padding)"

text \<open>\<open>text.replace(/=*$/, '')\<close>.\<close>

definition strip_padding :: "string \<Rightarrow> string" where
  "strip_padding text = rev (dropWhile (\<lambda>c. c = padding) (rev text))"

text \<open>\<open>result[j] |= v\<close> on a buffer: the byte is read as a number, and the low eight
  bits of the disjunction are stored.\<close>

definition or_at :: "byte list \<Rightarrow> nat \<Rightarrow> int32 \<Rightarrow> byte list" where
  "or_at result j v =
     (if j < length result then result[j := ucast (ucast (result ! j) OR v)] else result)"

function decode_loop :: "string \<Rightarrow> nat \<Rightarrow> nat \<Rightarrow> int \<Rightarrow> byte list \<Rightarrow> byte list" where
  "decode_loop text i j k result =
     (if i < length text
      then (let x = fromCharCode (text ! i)
            in if x = - 1 then decode_loop text (i + 1) j k result
               else if k < 3
                    then decode_loop text (i + 1) j (k + 5) (or_at result j (js_shl (of_int x) (3 - k)))
                    else decode_loop text i (j + 1) (k - 8) (or_at result j (js_shr (of_int x) (k - 3))))
      else result)"
  by pat_completeness auto
termination
  by (relation "measures [\<lambda>(text, i, j, k, result). length text - i,
                          \<lambda>(text, i, j, k, result). nat k]")
     auto

declare decode_loop.simps [simp del]

definition decode :: "string \<Rightarrow> byte list" where
  "decode text =
     (let text' = strip_padding text
      in decode_loop text' 0 0 0 (replicate (length text' * 5 div 8) 0))"

subsection \<open>Reference functions for the round trip\<close>

text \<open>
  The eight numbers the loop of \<open>encode\<close> computes for a group of five bytes (before
  masking), the numbers for a whole buffer, whose last group may be short, and the
  character a number is written as.
\<close>

definition quintet_group :: "int32 \<Rightarrow> int32 \<Rightarrow> int32 \<Rightarrow> int32 \<Rightarrow> int32 \<Rightarrow> int32 list" where
  "quintet_group a b c d e =
     [js_shr a 3 OR js_shl b 5,
      js_shl a 2 OR js_shr b 6,
      js_shr b 1 OR js_shl c 7,
      js_shl b 4 OR js_shr c 4,
      js_shl c 1 OR js_shr d 7,
      js_shr d 2 OR js_shl e 6,
      js_shl d 3 OR js_shr e 5,
      js_shl e 0 OR js_shr 0 8]"

fun quintets :: "byte list \<Rightarrow> int32 list" where
  "quintets [] = []"
| "quintets [a] = take 2 (quintet_group (ucast a) 0 0 0 0)"
| "quintets [a, b] = take 4 (quintet_group (ucast a) (ucast b) 0 0 0)"
| "quintets [a, b, c] = take 5 (quintet_group (ucast a) (ucast b) (ucast c) 0 0)"
| "quintets [a, b, c, d] = take 7 (quintet_group (ucast a) (ucast b) (ucast c) (ucast d) 0)"
| "quintets (a # b # c # d # e # rest) =
     quintet_group (ucast a) (ucast b) (ucast c) (ucast d) (ucast e) @ quintets rest"

definition symbol :: "int32 \<Rightarrow> char" where
  "symbol x = alphabet ! unat (x AND mask)"

fun write_at :: "'a list \<Rightarrow> nat \<Rightarrow> 'a list \<Rightarrow> 'a list" where
  "write_at result j [] = result"
| "write_at result j (c # cs) = write_at (result[j := c]) (Suc j) cs"

section \<open>Bulk deletion (\<open>deleteObjects\<close> of the GCS backend)\<close>

definition deleteObject ::
  "'st client \<Rightarrow> string \<Rightarrow> string \<Rightarrow> string option \<Rightarrow> 'st \<Rightarrow> (thrown + unit) \<times> 'st" where
  "deleteObject client bucketName key version st =
     (let objectName = withOptionalVersion key version;
          req = \<lparr> req_method = ''DELETE'', req_url = object_url bucketName objectName,
                  req_headers = [], responseType = None, req_data = None \<rparr>
      in case send client req st of
           (Inl e, st') \<Rightarrow> (Inl e, st')
         | (Inr r, st') \<Rightarrow> (Inr (), st'))"

definition MAX_PARALLEL_LIMIT :: nat where
  "MAX_PARALLEL_LIMIT = 10"

definition MAX_QUEUE_SIZE :: nat where
  "MAX_QUEUE_SIZE = 1000"

text \<open>
  The function handed to the limiter for one key:
  \<open>await this.deleteObject(bucketName, key, undefined).catch(() => {})\<close>. Whatever the
  deletion does, the \<open>catch\<close> turns it into a fulfilled promise.
\<close>

definition delete_job ::
  "'st client \<Rightarrow> string \<Rightarrow> string \<Rightarrow> 'st \<Rightarrow> (thrown + unit) \<times> 'st" where
  "delete_job client bucketName key st =
     (case deleteObject client bucketName key None st of
        (Inl e, st') \<Rightarrow> (Inr (), st')
      | (Inr u, st') \<Rightarrow> (Inr (), st'))"

text \<open>
  \<open>deleteObjects\<close> runs interleaved with the requests it has started, so it is a
  transition system. A job is the promise \<open>limit(...)\<close> returned for a key, numbered in
  the order of submission. The state holds the keys the \<open>for\<close> loop has not reached, the
  array \<open>queue\<close>, the promises of the \<open>await Promise.all\<close> in progress, the jobs waiting
  in the limiter, the jobs whose request is executing (their number is the limiter's
  \<open>activeCount\<close>), the outcome of every settled job, the number of jobs submitted, the
  point the function has reached, and the state of the remote store.
\<close>

datatype phase = Looping | Flushing | Finishing | Returned | Threw thrown

record 'st bulk_delete =
  remaining :: "string list"
  queue :: "nat list"
  awaited :: "nat list"
  waiting :: "(nat \<times> string) list"
  executing :: "(nat \<times> string) list"
  settled :: "nat \<rightharpoonup> thrown + unit"
  submitted :: nat
  phase :: phase
  store :: 'st

definition bulk_delete_start :: "string list \<Rightarrow> 'st \<Rightarrow> 'st bulk_delete" where
  "bulk_delete_start ks st =
     \<lparr> remaining = ks, queue = [], awaited = [], waiting = [], executing = [],
       settled = Map.empty, submitted = 0, phase = Looping, store = st \<rparr>"

text \<open>
  The steps. Of the loop: with a full \<open>queue\<close> it empties the array and awaits the
  promises taken out (\<open>flush\<close>), going on when all are fulfilled (\<open>resume\<close>); otherwise
  it submits the next key to the limiter and pushes the promise (\<open>push\<close>); after the last
  key it awaits \<open>queue\<close> (\<open>finish\<close>) and returns when all are fulfilled (\<open>return\<close>). A
  rejected promise among the awaited ones makes the \<open>await\<close> throw (\<open>throw\<close>). Of the
  limiter (the library \<open>p-limit\<close>): while fewer than \<open>MAX_PARALLEL_LIMIT\<close> jobs are
  executing, the job waiting longest starts (\<open>start\<close>). Of a request: an executing job
  settles with the outcome of its function (\<open>settle\<close>).
\<close>

inductive step :: "'st client \<Rightarrow> string \<Rightarrow> 'st bulk_delete \<Rightarrow> 'st bulk_delete \<Rightarrow> bool"
  for client :: "'st client" and bucketName :: string where
  flush:
    "phase s = Looping \<Longrightarrow> remaining s \<noteq> [] \<Longrightarrow> length (queue s) \<ge> MAX_QUEUE_SIZE \<Longrightarrow>
     step client bucketName s (s\<lparr>awaited := queue s, queue := [], phase := Flushing\<rparr>)"
| resume:
    "phase s = Flushing \<Longrightarrow> \<forall>j \<in> set (awaited s). settled s j = Some (Inr ()) \<Longrightarrow>
     step client bucketName s (s\<lparr>awaited := [], phase := Looping\<rparr>)"
| push:
    "phase s = Looping \<Longrightarrow> remaining s = key # ks \<Longrightarrow> length (queue s) < MAX_QUEUE_SIZE \<Longrightarrow>
     step client bucketName s
       (s\<lparr>remaining := ks, queue := queue s @ [submitted s],
          waiting := waiting s @ [(submitted s, key)], submitted := Suc (submitted s)\<rparr>)"
| finish:
    "phase s = Looping \<Longrightarrow> remaining s = [] \<Longrightarrow>
     step client bucketName s (s\<lparr>awaited := queue s, phase := Finishing\<rparr>)"
| return:
    "phase s = Finishing \<Longrightarrow> \<forall>j \<in> set (awaited s). settled s j = Some (Inr ()) \<Longrightarrow>
     step client bucketName s (s\<lparr>phase := Returned\<rparr>)"
| throw:
    "phase s = Flushing \<or> phase s = Finishing \<Longrightarrow> j \<in> set (awaited s) \<Longrightarrow>
     settled s j = Some (Inl e) \<Longrightarrow>
     step client bucketName s (s\<lparr>phase := Threw e\<rparr>)"
| start:
    "waiting s = job # jobs \<Longrightarrow> length (executing s) < MAX_PARALLEL_LIMIT \<Longrightarrow>
     step client bucketName s (s\<lparr>waiting := jobs, executing := executing s @ [job]\<rparr>)"
| settle:
    "(j, key) \<in> set (executing s) \<Longrightarrow> delete_job client bucketName key (store s) = (r, st') \<Longrightarrow>
     step client bucketName s
       (s\<lparr>executing := remove1 (j, key) (executing s), settled := (settled s)(j \<mapsto> r),
          store := st'\<rparr>)"

text \<open>The states a call of \<open>deleteObjects\<close> with the given keys can be in after \<open>n\<close>
  steps, from the store \<open>st\<close>.\<close>

inductive reachable ::
  "'st client \<Rightarrow> string \<Rightarrow> string list \<Rightarrow> 'st \<Rightarrow> nat \<Rightarrow> 'st bulk_delete \<Rightarrow> bool"
  for client :: "'st client" and bucketName :: string and ks :: "string list" and st :: 'st where
  initial: "reachable client bucketName ks st 0 (bulk_delete_start ks st)"
| after: "reachable client bucketName ks st n s \<Longrightarrow> step client bucketName s s' \<Longrightarrow>
          reachable client bucketName ks st (Suc n) s'"

text \<open>What is left to do in a state: it decreases with every step.\<close>

definition phase_rank :: "'st bulk_delete \<Rightarrow> nat" where
  "phase_rank s =
     (case phase s of
        Looping \<Rightarrow> (if length (queue s) \<ge> MAX_QUEUE_SIZE then 4 else 2)
      | Flushing \<Rightarrow> 3
      | Finishing \<Rightarrow> 1
      | Returned \<Rightarrow> 0
      | Threw e \<Rightarrow> 0)"

definition work_left :: "'st bulk_delete \<Rightarrow> nat" where
  "work_left s =
     5 * length (remaining s) + 2 * length (waiting s) + length (executing s) + phase_rank s"

text \<open>
  The invariant of the reachable states, on the components of a state: \<open>N\<close> keys were
  given, \<open>R\<close> remain, \<open>Q\<close> is the queue, \<open>A\<close> the awaited promises, \<open>W\<close> and \<open>E\<close> the
  waiting and the executing jobs, \<open>S\<close> the outcomes, \<open>n\<close> the number of jobs submitted
  and \<open>p\<close> the phase. Every job submitted is either unsettled (waiting or executing,
  the set \<open>I\<close>) or settled (\<open>D\<close>), and the unsettled ones are among the promises the
  function holds (\<open>T\<close>).
\<close>

definition phases_ok ::
  "nat \<Rightarrow> string list \<Rightarrow> nat list \<Rightarrow> nat list \<Rightarrow> (nat \<times> string) list \<Rightarrow> (nat \<times> string) list \<Rightarrow>
   nat \<Rightarrow> phase \<Rightarrow> bool" where
  "phases_ok N R Q A W E n p \<longleftrightarrow>
     length E \<le> MAX_PARALLEL_LIMIT \<and> length Q \<le> MAX_QUEUE_SIZE \<and> length A \<le> MAX_QUEUE_SIZE \<and>
     (p = Flushing \<longrightarrow> Q = []) \<and> (p = Looping \<longrightarrow> A = []) \<and>
     (p = Finishing \<or> p = Returned \<longrightarrow> A = Q \<and> R = []) \<and>
     (p = Returned \<longrightarrow> W = [] \<and> E = []) \<and>
     (\<forall>e. p \<noteq> Threw e) \<and>
     n + length R = N"

definition accounted :: "nat set \<Rightarrow> nat set \<Rightarrow> nat set \<Rightarrow> nat \<Rightarrow> bool" where
  "accounted I D T n \<longleftrightarrow> I \<union> D = {..<n} \<and> I \<inter> D = {} \<and> I \<subseteq> T \<and> T \<subseteq> {..<n}"

definition invariant ::
  "nat \<Rightarrow> string list \<Rightarrow> nat list \<Rightarrow> nat list \<Rightarrow> (nat \<times> string) list \<Rightarrow> (nat \<times> string) list \<Rightarrow>
   (nat \<rightharpoonup> thrown + unit) \<Rightarrow> nat \<Rightarrow> phase \<Rightarrow> bool" where
  "invariant N R Q A W E S n p \<longleftrightarrow>
     phases_ok N R Q A W E n p \<and>
     distinct (map fst (W @ E)) \<and>
     accounted (fst ` set (W @ E)) (dom S) (set Q \<union> set A) n \<and>
     (\<forall>j r. S j = Some r \<longrightarrow> r = Inr ())"

definition consistent :: "nat \<Rightarrow> 'st bulk_delete \<Rightarrow> bool" where
  "consistent N s \<longleftrightarrow>
     invariant N (remaining s) (queue s) (awaited s) (waiting s) (executing s) (settled s)
       (submitted s) (phase s)"

text \<open>A client whose every request fails, and the states of a call with one key.\<close>

definition failing_client :: "unit client" where
  "failing_client req st = (Inl (Thrown ''503 Service Unavailable''), st)"

definition one_key_run :: "nat \<Rightarrow> unit bulk_delete" where
  "one_key_run k =
     \<lparr> remaining = (if k = 0 then [''k''] else []),
       queue = (if k = 0 then [] else [0]),
       awaited = (if k < 4 then [] else [0]),
       waiting = (if k = 1 then [(0, ''k'')] else []),
       executing = (if k = 2 then [(0, ''k'')] else []),
       settled = (if k < 3 then Map.empty else [0 \<mapsto> Inr ()]),
       submitted = (if k = 0 then 0 else 1),
       phase = (if k < 4 then Looping else if k = 4 then Finishing else Returned),
       store = () \<rparr>"

section \<open>Properties\<close>

subsection \<open>Metadata normalisation\<close>

lemma or_else_None [simp]: "or_else None d = d"
  by (simp add: or_else_def)

lemma buildMetadata_mimetype_default:
  "Headers_get (Headers_new (resp_headers r)) ''Content-Type'' = None \<Longrightarrow>
   mimetype (buildMetadata D N r) = ''application/octet-stream''"
  by (simp add: buildMetadata_def Let_def)

lemma buildMetadata_cacheControl_default:
  "Headers_get (Headers_new (resp_headers r)) ''Cache-Control'' = None \<Longrightarrow>
   cacheControl (buildMetadata D N r) = ''no-cache''"
  by (simp add: buildMetadata_def Let_def)

lemma send_Inr:
  "send client req st = (Inr r, st') \<Longrightarrow> client req st = (Inr r, st') \<and> data_error r = None"
  by (auto simp: send_def split: prod.splits sum.splits option.splits)

lemma headObject_Inr:
  assumes "headObject D N client b k v st = (Inr m, st')"
  shows "\<exists>req r. client req st = (Inr r, st') \<and> m = buildMetadata D N r"
proof -
  from assms obtain req r where a: "send client req st = (Inr r, st')" "m = buildMetadata D N r"
    by (auto simp: headObject_def Let_def split: prod.splits sum.splits)
  from send_Inr [OF a(1)] a(2) show ?thesis
    by (intro exI [of _ req] exI [of _ r]) simp
qed

lemma getObject_Inr:
  assumes "getObject D N client b k v h st = (Inr res, st')"
  shows "\<exists>req r. client req st = (Inr r, st') \<and> metadata res = buildMetadata D N r"
proof -
  from assms obtain req r where a: "send client req st = (Inr r, st')"
      "metadata res = buildMetadata D N r"
    by (auto simp: getObject_def Let_def split: prod.splits sum.splits)
  from send_Inr [OF a(1)] a(2) show ?thesis
    by (intro exI [of _ req] exI [of _ r]) simp
qed

lemma uploadObject_Inr:
  assumes "uploadObject D N client b k v content ct cc st = (Inr m, st')"
  shows "\<exists>req s r. client req s = (Inr r, st') \<and> m = buildMetadata D N r"
proof -
  from assms obtain s where "headObject D N client b k v s = (Inr m, st')"
    by (auto simp: uploadObject_def Let_def split: prod.splits sum.splits)
  from headObject_Inr [OF this] obtain req r where
    "client req s = (Inr r, st')" "m = buildMetadata D N r" by auto
  then show ?thesis
    by (intro exI [of _ req] exI [of _ s] exI [of _ r]) simp
qed

lemma copyObject_Inr:
  assumes "copyObject D N U client b s v d dv md conds st = (Inr m, st')"
  shows "\<exists>req r. client req st = (Inr r, st') \<and> m = buildMetadata D N r"
proof -
  from assms obtain req r where a: "send client req st = (Inr r, st')" "m = buildMetadata D N r"
    by (auto simp: copyObject_def split: prod.splits sum.splits)
  from send_Inr [OF a(1)] a(2) show ?thesis
    by (intro exI [of _ req] exI [of _ r]) simp
qed

lemma normalised_from_response:
  assumes "client req s = (Inr r, st')" and "m = buildMetadata D N r"
  shows "\<exists>req s r. client req s = (Inr r, st') \<and> m = buildMetadata D N r \<and>
         (carries_no r ''Content-Type'' \<longrightarrow> mimetype m = ''application/octet-stream'') \<and>
         (carries_no r ''Cache-Control'' \<longrightarrow> cacheControl m = ''no-cache'')"
  using assms
  by (intro exI [of _ req] exI [of _ s] exI [of _ r])
     (simp add: buildMetadata_mimetype_default buildMetadata_cacheControl_default)

text \<open>
  Claim C8. Whenever \<open>getObject\<close>, \<open>headObject\<close>, \<open>uploadObject\<close> or \<open>copyObject\<close>
  returns, the metadata it returns is \<open>buildMetadata\<close> of a response the client gave (for
  \<open>uploadObject\<close>, the response to the follow-up HEAD), and in it \<open>mimetype\<close> is
  "application/octet-stream" when that response carries no Content-Type and
  \<open>cacheControl\<close> is "no-cache" when it carries no Cache-Control.
\<close>

theorem metadata_normalised:
  fixes client :: "'st client" and N :: "string \<Rightarrow> ('n::zero) option"
  shows
  "(\<forall>res st'. getObject D N client b k v h st = (Inr res, st') \<longrightarrow>
      (\<exists>req s r. client req s = (Inr r, st') \<and> metadata res = buildMetadata D N r \<and>
         (carries_no r ''Content-Type'' \<longrightarrow> mimetype (metadata res) = ''application/octet-stream'') \<and>
         (carries_no r ''Cache-Control'' \<longrightarrow> cacheControl (metadata res) = ''no-cache''))) \<and>
   (\<forall>m st'. headObject D N client b k v st = (Inr m, st') \<longrightarrow>
      (\<exists>req s r. client req s = (Inr r, st') \<and> m = buildMetadata D N r \<and>
         (carries_no r ''Content-Type'' \<longrightarrow> mimetype m = ''application/octet-stream'') \<and>
         (carries_no r ''Cache-Control'' \<longrightarrow> cacheControl m = ''no-cache''))) \<and>
   (\<forall>m st'. uploadObject D N client b k v content ct cc st = (Inr m, st') \<longrightarrow>
      (\<exists>req s r. client req s = (Inr r, st') \<and> m = buildMetadata D N r \<and>
         (carries_no r ''Content-Type'' \<longrightarrow> mimetype m = ''application/octet-stream'') \<and>
         (carries_no r ''Cache-Control'' \<longrightarrow> cacheControl m = ''no-cache''))) \<and>
   (\<forall>m st'. copyObject D N U client b src v dst dv md conds st = (Inr m, st') \<longrightarrow>
      (\<exists>req s r. client req s = (Inr r, st') \<and> m = buildMetadata D N r \<and>
         (carries_no r ''Content-Type'' \<longrightarrow> mimetype m = ''application/octet-stream'') \<and>
         (carries_no r ''Cache-Control'' \<longrightarrow> cacheControl m = ''no-cache'')))"
proof (intro conjI allI impI)
  fix res st' assume "getObject D N client b k v h st = (Inr res, st')"
  from getObject_Inr [OF this] obtain req r where
    "client req st = (Inr r, st')" "metadata res = buildMetadata D N r" by auto
  then show "\<exists>req s r. client req s = (Inr r, st') \<and> metadata res = buildMetadata D N r \<and>
         (carries_no r ''Content-Type'' \<longrightarrow> mimetype (metadata res) = ''application/octet-stream'') \<and>
         (carries_no r ''Cache-Control'' \<longrightarrow> cacheControl (metadata res) = ''no-cache'')"
    by (rule normalised_from_response)
next
  fix m :: "'n ObjectMetadata" and st'
  assume "headObject D N client b k v st = (Inr m, st')"
  from headObject_Inr [OF this] obtain req r where
    "client req st = (Inr r, st')" "m = buildMetadata D N r" by auto
  then show "\<exists>req s r. client req s = (Inr r, st') \<and> m = buildMetadata D N r \<and>
         (carries_no r ''Content-Type'' \<longrightarrow> mimetype m = ''application/octet-stream'') \<and>
         (carries_no r ''Cache-Control'' \<longrightarrow> cacheControl m = ''no-cache'')"
    by (rule normalised_from_response)
next
  fix m :: "'n ObjectMetadata" and st'
  assume "uploadObject D N client b k v content ct cc st = (Inr m, st')"
  from uploadObject_Inr [OF this] obtain req s r where
    "client req s = (Inr r, st')" "m = buildMetadata D N r" by auto
  then show "\<exists>req s r. client req s = (Inr r, st') \<and> m = buildMetadata D N r \<and>
         (carries_no r ''Content-Type'' \<longrightarrow> mimetype m = ''application/octet-stream'') \<and>
         (carries_no r ''Cache-Control'' \<longrightarrow> cacheControl m = ''no-cache'')"
    by (rule normalised_from_response)
next
  fix m :: "'n ObjectMetadata" and st'
  assume "copyObject D N U client b src v dst dv md conds st = (Inr m, st')"
  from copyObject_Inr [OF this] obtain req r where
    "client req st = (Inr r, st')" "m = buildMetadata D N r" by auto
  then show "\<exists>req s r. client req s = (Inr r, st') \<and> m = buildMetadata D N r \<and>
         (carries_no r ''Content-Type'' \<longrightarrow> mimetype m = ''application/octet-stream'') \<and>
         (carries_no r ''Cache-Control'' \<longrightarrow> cacheControl m = ''no-cache'')"
    by (rule normalised_from_response)
qed

theorem metadata_normalised_witness:
  "(case getObject (\<lambda>s. InvalidDate) (\<lambda>s. None :: nat option)
           (\<lambda>req st. (Inr \<lparr>status = 200, resp_headers = [(''ETag'', ''abc'')], resp_data = ''x'',
                                  data_error = None\<rparr>, st))
           ''b'' ''k'' None None () of
      (Inr res, _) \<Rightarrow> mimetype (metadata res) = ''application/octet-stream'' \<and>
                      cacheControl (metadata res) = ''no-cache''
    | (Inl e, _) \<Rightarrow> False) \<and>
   (case headObject (\<lambda>s. InvalidDate) (\<lambda>s. None :: nat option)
           (\<lambda>req st. (Inr \<lparr>status = 200, resp_headers = [(''ETag'', ''abc'')], resp_data = ''x'',
                                  data_error = None\<rparr>, st))
           ''b'' ''k'' None () of
      (Inr m, _) \<Rightarrow> mimetype m = ''application/octet-stream'' \<and> cacheControl m = ''no-cache''
    | (Inl e, _) \<Rightarrow> False) \<and>
   (case uploadObject (\<lambda>s. InvalidDate) (\<lambda>s. None :: nat option)
           (\<lambda>req st. (Inr \<lparr>status = 200, resp_headers = [(''ETag'', ''abc'')], resp_data = ''x'',
                                  data_error = None\<rparr>, st))
           ''b'' ''k'' None ''data'' ''text/plain'' ''max-age=1'' () of
      (Inr m, _) \<Rightarrow> mimetype m = ''application/octet-stream'' \<and> cacheControl m = ''no-cache''
    | (Inl e, _) \<Rightarrow> False) \<and>
   (case copyObject (\<lambda>s. InvalidDate) (\<lambda>s. None :: nat option) (\<lambda>d. ''date'')
           (\<lambda>req st. (Inr \<lparr>status = 200, resp_headers = [(''ETag'', ''abc'')], resp_data = ''x'',
                                  data_error = None\<rparr>, st))
           ''b'' ''k'' None ''k2'' None None None () of
      (Inr m, _) \<Rightarrow> mimetype m = ''application/octet-stream'' \<and> cacheControl m = ''no-cache''
    | (Inl e, _) \<Rightarrow> False)"
  using metadata_normalised [of "\<lambda>s. InvalidDate" "\<lambda>s. None :: nat option"
      "\<lambda>req st. (Inr \<lparr>status = 200, resp_headers = [(''ETag'', ''abc'')], resp_data = ''x'',
                                  data_error = None\<rparr>, st)" "''b''" "''k''" None None "()"]
  by (simp add: getObject_def headObject_def uploadObject_def copyObject_def send_def
        buildMetadata_def Headers_get_def Headers_new_def lower_def lower_char_def or_else_def
        Let_def)

subsection \<open>The metadata directive of a copy\<close>

lemma longer_not_equal: "xs \<noteq> ys @ zs @ xs" if "zs \<noteq> []"
proof
  assume "xs = ys @ zs @ xs"
  then have "length xs = length (ys @ zs @ xs)" by simp
  with that show False by simp
qed

text \<open>
  Claim C1 (evaluation of the code). \<open>copyObject\<close> sends the directive REPLACE exactly
  when the destination object name equals the bucket name, a slash and the source object
  name. A copy whose source and destination key and version are identical therefore
  always carries the directive COPY.
\<close>

theorem copy_directive_same_key:
  "(copy_directive b s v d dv = ''REPLACE'' \<longleftrightarrow>
      withOptionalVersion d dv = b @ ''/'' @ withOptionalVersion s v) \<and>
   copy_directive b k v k v = ''COPY'' \<and>
   map_of (req_headers (copyObject_request U b k v k v md conds)) ''X-Goog-Metadata-Directive''
     = Some (Some ''COPY'')"
  using longer_not_equal [of "''/''" "withOptionalVersion k v" b]
  by (simp add: copy_directive_def copyObject_request_def Let_def)

subsection \<open>Listing with \<open>beforeDate\<close>\<close>

lemma list_keep_iff:
  assumes "beforeDate opts = Some (TimeValue b)" and "modification_time D object = Some t"
  shows "list_keep D (Some opts) object \<longleftrightarrow> t < b"
  using assms
  by (auto simp: list_keep_def modification_time_def truthy_def
      split: option.splits if_splits js_date.splits)

lemma list_objects_Inr:
  assumes "list_objects D qs parse client bucket options st = (Inr page, st')"
  shows "\<exists>req r data. client req st = (Inr r, st') \<and> parse (resp_data r) = Some data \<and>
           keys page = map (list_entry options)
             (filter (list_keep D options) (case Contents data of None \<Rightarrow> [] | Some cs \<Rightarrow> cs))"
proof -
  from assms obtain req r data where a: "send client req st = (Inr r, st')"
      "parse (resp_data r) = Some data"
      "keys page = (case Contents data of None \<Rightarrow> []
                    | Some cs \<Rightarrow> map (list_entry options) (filter (list_keep D options) cs))"
    by (auto simp: list_objects_def Let_def split: prod.splits sum.splits option.splits)
  from send_Inr [OF a(1)] a(2,3) show ?thesis
    by (intro exI [of _ req] exI [of _ r] exI [of _ data]) (simp split: option.splits)
qed

text \<open>
  Claim C7. When \<open>list\<close> is called with a \<open>beforeDate\<close> and returns a page, the page is
  built, in order, from the kept entries of the listing the backend answered with; an
  entry that has a modification time is kept exactly when that time is strictly before
  \<open>beforeDate\<close>: on or after it, the entry is excluded.
\<close>

theorem list_beforeDate_excludes:
  assumes "list_objects D qs parse client bucket (Some opts) st = (Inr page, st')"
    and "beforeDate opts = Some (TimeValue b)"
  shows "\<exists>req r data kept. client req st = (Inr r, st') \<and> parse (resp_data r) = Some data \<and>
           kept = filter (list_keep D (Some opts))
                    (case Contents data of None \<Rightarrow> [] | Some cs \<Rightarrow> cs) \<and>
           keys page = map (list_entry (Some opts)) kept \<and>
           (\<forall>object \<in> set (case Contents data of None \<Rightarrow> [] | Some cs \<Rightarrow> cs). \<forall>t.
               modification_time D object = Some t \<longrightarrow>
                 (b \<le> t \<longrightarrow> object \<notin> set kept) \<and> (t < b \<longrightarrow> object \<in> set kept))"
proof -
  from list_objects_Inr [OF assms(1)] obtain req r data where a:
    "client req st = (Inr r, st')" "parse (resp_data r) = Some data"
    "keys page = map (list_entry (Some opts))
       (filter (list_keep D (Some opts)) (case Contents data of None \<Rightarrow> [] | Some cs \<Rightarrow> cs))"
    by auto
  have "\<forall>object \<in> set (case Contents data of None \<Rightarrow> [] | Some cs \<Rightarrow> cs). \<forall>t.
          modification_time D object = Some t \<longrightarrow>
            (b \<le> t \<longrightarrow> object \<notin> set (filter (list_keep D (Some opts))
                                  (case Contents data of None \<Rightarrow> [] | Some cs \<Rightarrow> cs))) \<and>
            (t < b \<longrightarrow> object \<in> set (filter (list_keep D (Some opts))
                                  (case Contents data of None \<Rightarrow> [] | Some cs \<Rightarrow> cs)))"
    using list_keep_iff [OF assms(2)] by auto
  with a show ?thesis
    by (intro exI [of _ req] exI [of _ r] exI [of _ data]) simp
qed

theorem list_beforeDate_excludes_witness:
  "(case list_objects (\<lambda>s. if s = ''early'' then TimeValue 1 else TimeValue 5)
           (\<lambda>q. '''')
           (\<lambda>d. Some \<lparr>Contents = Some [\<lparr>Key = ''a'', LastModified = Some ''early'', Size = 1\<rparr>,
                                        \<lparr>Key = ''b'', LastModified = Some ''late'', Size = 2\<rparr>,
                                        \<lparr>Key = ''c'', LastModified = Some ''early'', Size = 3\<rparr>],
                        NextContinuationToken = None\<rparr>)
           (\<lambda>req st. (Inr \<lparr>status = 200, resp_headers = [], resp_data = ''x'',
                            data_error = None\<rparr>, st))
           ''bucket''
           (Some \<lparr>prefix_opt = None, delimiter = None, nextToken = None, startAfter = None,
                  beforeDate = Some (TimeValue 5)\<rparr>) () of
      (Inr page, _) \<Rightarrow> keys page = [\<lparr>name = ''a'', key_size = 1\<rparr>, \<lparr>name = ''c'', key_size = 3\<rparr>]
    | (Inl e, _) \<Rightarrow> False)"
  using list_beforeDate_excludes [of "\<lambda>s. if s = ''early'' then TimeValue 1 else TimeValue 5"
      "\<lambda>q. ''''"
      "\<lambda>d. Some \<lparr>Contents = Some [\<lparr>Key = ''a'', LastModified = Some ''early'', Size = 1\<rparr>,
                                        \<lparr>Key = ''b'', LastModified = Some ''late'', Size = 2\<rparr>,
                                        \<lparr>Key = ''c'', LastModified = Some ''early'', Size = 3\<rparr>],
                        NextContinuationToken = None\<rparr>"
      "\<lambda>req st. (Inr \<lparr>status = 200, resp_headers = [], resp_data = ''x'',
                            data_error = None\<rparr>, st)"
      "''bucket''"
      "\<lparr>prefix_opt = None, delimiter = None, nextToken = None, startAfter = None,
                  beforeDate = Some (TimeValue 5)\<rparr>" "()" _ _ 5]
  by (simp add: list_objects_def send_def list_keep_def list_entry_def truthy_def Let_def)

subsection \<open>The expiry validation of the signer\<close>

lemma valid_name_Host: "valid_name ''Host''"
  by (simp add: valid_name_def is_token_char_def)









lemma presign_success:
  assumes "getCredentials client = Inr m" and "\<forall>s ep. \<exists>sg. sign client s ep = Inr sg"
  shows "\<exists>u calls. presign P client request options u1 hs (TimeValue t) e = (Inr u, calls) \<and>
      (''X-Goog-Expires'', number_toString P e) \<in> set (searchParams u)"
proof -
  define sts where "sts = (let credentialScope =
                      CredentialScope_toString P t
                        (case Option.bind options signingRegion of
                           None \<Rightarrow> ''auto'' | Some r \<Rightarrow> r)
                        (case Option.bind options signingService of
                           None \<Rightarrow> ''storage'' | Some s \<Rightarrow> s)
                        ''goog4_request'';
                    signingAlgorithm = ''GOOG4-RSA-SHA256'';
                    signedHeaders = join '';'' (Headers_keys hs);
                    url2 = u1\<lparr>searchParams :=
                             sort_key fst
                               (searchParams u1 @
                                [(''X-Goog-Algorithm'', signingAlgorithm),
                                 (''X-Goog-Credential'',
                                    (case m of
                                       None \<Rightarrow> ''undefined'' | Some m \<Rightarrow> m)
                                    @ ''/'' @ credentialScope),
                                 (''X-Goog-Date'', toISOBasicString P t),
                                 (''X-Goog-Expires'', number_toString P e),
                                 (''X-Goog-SignedHeaders'', signedHeaders)])\<rparr>;
                    contentHash = (case Headers_get hs ''X-Goog-Content-SHA256'' of
                                     None \<Rightarrow> ''UNSIGNED-PAYLOAD'' | Some h \<Rightarrow> h);
                    hash = hashCanonicalRequest P (cr_method request) url2 hs contentHash;
                    activeDatetime = toISOBasicString P t
                in join [CHR 0x0A]
                      [signingAlgorithm, activeDatetime, credentialScope, hash])"
  from assms(2) obtain sg where sg: "sign client sts (Option.bind options signingEndpoint) = Inr sg"
    by blast
  show ?thesis
    using assms(1) sg unfolding presign_def sts_def Let_def
    by simp
qed

lemma number_toString_examples:
  "number_toString P (Finite 600) = ''600''" "number_toString P (Finite 900) = ''900''"
  "number_toString P (Finite 604800) = ''604800''"
  "integer_text 600 = ''600''" "integer_text 900 = ''900''" "integer_text 604800 = ''604800''"
  by (simp_all add: integer_text_def digits.simps char_of_def bit_0)




subsection \<open>The validity window of \<open>privateAssetUrl\<close>\<close>

lemma drop_unsignable_none: "drop_unsignable [] signable hs i = hs"
proof (induction "[] :: string list" signable hs i rule: drop_unsignable.induct)
  case (1 signable hs i)
  then show ?case
    by (subst drop_unsignable.simps) (simp add: Let_def)
qed

lemma presign_expires:
  assumes "presign P client request options u1 hs d e = (Inr u, calls)"
  shows "searchParams_getAll u ''X-Goog-Expires'' =
         searchParams_getAll u1 ''X-Goog-Expires'' @ [number_toString P e]"
  using assms unfolding presign_def Let_def searchParams_getAll_def
  by (auto simp: sort_key_stable split: sum.splits js_date.splits)

lemma presign_signed:
  assumes "presign P client request options u1 hs d e = (Inr u, calls)"
  shows "\<exists>s sg. calls = [GetCredentials, Sign s (Option.bind options signingEndpoint)] \<and>
           sign client s (Option.bind options signingEndpoint) = Inr sg \<and>
           last (searchParams u) = (''X-Goog-Signature'', base64_to_hex P sg)"
  using assms unfolding presign_def Let_def
  by (auto split: sum.splits js_date.splits)

lemma privateAssetUrl_unfold:
  assumes "URL_new P (object_url b (withOptionalVersion k v)) = Some u0"
    and "valid_value (normalize_value (host u0))"
  shows "privateAssetUrl P client b k v =
         presign P client
           \<lparr> cr_method = ''GET'', cr_url = object_url b (withOptionalVersion k v), cr_headers = [] \<rparr>
           (Some \<lparr> signingDate = None, signingEndpoint = None, signingService = None,
                   signingRegion = None, unsignableHeaders = None, signableHeaders = None,
                   expiresIn = Some (Finite 600), unhoistableHeaders = None \<rparr>)
           u0 [(''host'', normalize_value (host u0))] (now P) (Finite 600)"
  using assms
  by (simp add: privateAssetUrl_def getSignedUrl_def prepare_def new_Headers_def Let_def
      Headers_has_def Headers_set_def valid_name_Host Headers_keys_def Headers_entries_def
      lower_def lower_char_def char_of_def bit_0 drop_unsignable_none)

lemma privateAssetUrl_invalid:
  assumes "URL_new P (object_url b (withOptionalVersion k v)) = None"
  shows "privateAssetUrl P client b k v = (Inl (TypeError ''Invalid URL''), [])"
  using assms
  by (simp add: privateAssetUrl_def getSignedUrl_def prepare_def new_Headers_def Let_def)

lemma privateAssetUrl_invalid_host:
  assumes "URL_new P (object_url b (withOptionalVersion k v)) = Some u0"
    and "\<not> valid_value (normalize_value (host u0))"
  shows "\<exists>e. privateAssetUrl P client b k v = (Inl e, [])"
  using assms
  by (simp add: privateAssetUrl_def getSignedUrl_def prepare_def new_Headers_def Let_def
      Headers_has_def Headers_set_def valid_name_Host)

lemma privateAssetUrl_Inr:
  assumes r: "privateAssetUrl P client b k v = (Inr u, calls)"
  shows "\<exists>u0 s sg. URL_new P (object_url b (withOptionalVersion k v)) = Some u0 \<and>
           searchParams_getAll u ''X-Goog-Expires'' =
             searchParams_getAll u0 ''X-Goog-Expires'' @ [''600''] \<and>
           calls = [GetCredentials, Sign s None] \<and> sign client s None = Inr sg \<and>
           last (searchParams u) = (''X-Goog-Signature'', base64_to_hex P sg)"
proof (cases "URL_new P (object_url b (withOptionalVersion k v))")
  case None
  from privateAssetUrl_invalid [OF this] r show ?thesis by simp
next
  case (Some u0)
  show ?thesis
  proof (cases "valid_value (normalize_value (host u0))")
    case False
    from privateAssetUrl_invalid_host [OF Some this, of client] r show ?thesis by simp
  next
    case True
    note p = r [unfolded privateAssetUrl_unfold [OF Some True]]
    from presign_expires [OF p] presign_signed [OF p] Some show ?thesis
      by (simp add: number_toString_examples)
  qed
qed

lemma privateAssetUrl_returns:
  assumes "URL_new P (object_url b (withOptionalVersion k v)) = Some u0"
    and "valid_value (normalize_value (host u0))"
    and "getCredentials client = Inr m" and "\<forall>s ep. \<exists>sg. sign client s ep = Inr sg"
    and "now P = TimeValue t"
  shows "\<exists>u calls. privateAssetUrl P client b k v = (Inr u, calls)"
  using presign_success [OF assms(3,4), of P _ _ u0 "[(''host'', normalize_value (host u0))]" t "Finite 600"]
  unfolding privateAssetUrl_unfold [OF assms(1,2)] assms(5) by blast

text \<open>
  Claim C9, as amended. Whenever \<open>privateAssetUrl\<close> returns a URL, the signing identity
  was asked for the credentials and then for one signature, which ends the URL, and the
  \<open>X-Goog-Expires\<close> parameters of that URL are those the object URL itself parsed to,
  followed by the one parameter the signer adds, whose value is "600" (not the signer's
  default "900"). So the validity window is exactly 600 seconds for every bucket, key and
  version whose object URL has no \<open>X-Goog-Expires\<close> parameter of its own. The call does
  return a URL when the object URL parses to one with a valid host, the signing identity
  answers and the clock is valid.
\<close>

theorem privateAssetUrl_expires_600:
  "(\<forall>u calls. privateAssetUrl P client b k v = (Inr u, calls) \<longrightarrow>
      (\<exists>u0 s sg. URL_new P (object_url b (withOptionalVersion k v)) = Some u0 \<and>
         searchParams_getAll u ''X-Goog-Expires'' =
           searchParams_getAll u0 ''X-Goog-Expires'' @ [''600''] \<and>
         (searchParams_getAll u0 ''X-Goog-Expires'' = [] \<longrightarrow>
            searchParams_getAll u ''X-Goog-Expires'' = [''600'']) \<and>
         calls = [GetCredentials, Sign s None] \<and> sign client s None = Inr sg \<and>
         last (searchParams u) = (''X-Goog-Signature'', base64_to_hex P sg))) \<and>
   (\<forall>u0 m t. URL_new P (object_url b (withOptionalVersion k v)) = Some u0 \<and>
        valid_value (normalize_value (host u0)) \<and>
        getCredentials client = Inr m \<and> (\<forall>s ep. \<exists>sg. sign client s ep = Inr sg) \<and>
        now P = TimeValue t \<longrightarrow>
      (\<exists>u calls. privateAssetUrl P client b k v = (Inr u, calls)))"
proof (rule conjI; intro allI impI)
  fix u calls assume "privateAssetUrl P client b k v = (Inr u, calls)"
  from privateAssetUrl_Inr [OF this] obtain u0 s sg where
    "URL_new P (object_url b (withOptionalVersion k v)) = Some u0"
    "searchParams_getAll u ''X-Goog-Expires'' =
       searchParams_getAll u0 ''X-Goog-Expires'' @ [''600'']"
    "calls = [GetCredentials, Sign s None]" "sign client s None = Inr sg"
    "last (searchParams u) = (''X-Goog-Signature'', base64_to_hex P sg)"
    by blast
  then show "\<exists>u0 s sg. URL_new P (object_url b (withOptionalVersion k v)) = Some u0 \<and>
         searchParams_getAll u ''X-Goog-Expires'' =
           searchParams_getAll u0 ''X-Goog-Expires'' @ [''600''] \<and>
         (searchParams_getAll u0 ''X-Goog-Expires'' = [] \<longrightarrow>
            searchParams_getAll u ''X-Goog-Expires'' = [''600'']) \<and>
         calls = [GetCredentials, Sign s None] \<and> sign client s None = Inr sg \<and>
         last (searchParams u) = (''X-Goog-Signature'', base64_to_hex P sg)"
    by (intro exI [of _ u0] exI [of _ s] exI [of _ sg]) simp
next
  fix u0 m t
  assume "URL_new P (object_url b (withOptionalVersion k v)) = Some u0 \<and>
        valid_value (normalize_value (host u0)) \<and>
        getCredentials client = Inr m \<and> (\<forall>s ep. \<exists>sg. sign client s ep = Inr sg) \<and>
        now P = TimeValue t"
  then show "\<exists>u calls. privateAssetUrl P client b k v = (Inr u, calls)"
    using privateAssetUrl_returns [of P b k v u0 client m t] by blast
qed

lemma sample_host_valid:
  "valid_value (normalize_value ''b.storage.googleapis.com'')"
  by (simp add: valid_value_def normalize_value_def is_http_whitespace_def)

theorem privateAssetUrl_expires_600_witness:
  "\<exists>u calls s. privateAssetUrl sample_platform sample_client ''b'' ''k'' None = (Inr u, calls) \<and>
     searchParams_getAll u ''X-Goog-Expires'' = [''600''] \<and>
     calls = [GetCredentials, Sign s None] \<and>
     last (searchParams u) = (''X-Goog-Signature'', ''ff'')"
proof -
  note T = privateAssetUrl_expires_600 [where P = sample_platform and client = sample_client
      and b = "''b''" and k = "''k''" and v = None]
  have u: "URL_new sample_platform (object_url ''b'' (withOptionalVersion ''k'' None)) =
           Some \<lparr> protocol = ''https:'', host = ''b.storage.googleapis.com'',
                  pathname = ''/k'', searchParams = [] \<rparr>"
    by (simp add: sample_platform_def object_url_def)
  have h: "valid_value (normalize_value (host \<lparr> protocol = ''https:'',
      host = ''b.storage.googleapis.com'', pathname = ''/k'', searchParams = [] \<rparr>))"
    using sample_host_valid by simp
  have c: "getCredentials sample_client = Inr (Some ''sa@example'')"
    "\<forall>s ep. \<exists>sg. sign sample_client s ep = Inr sg"
    "now sample_platform = TimeValue 0"
    by (simp_all add: sample_client_def sample_platform_def)
  from T [THEN conjunct2, rule_format, OF conjI [OF u conjI [OF h conjI [OF c(1) conjI [OF c(2) c(3)]]]]]
  obtain u' calls where
    r: "privateAssetUrl sample_platform sample_client ''b'' ''k'' None = (Inr u', calls)"
    by blast
  from T [THEN conjunct1, rule_format, OF r] u obtain s sg where
    "searchParams_getAll u' ''X-Goog-Expires'' = [''600'']"
    "calls = [GetCredentials, Sign s None]"
    "last (searchParams u') = (''X-Goog-Signature'', base64_to_hex sample_platform sg)"
    by (auto simp: searchParams_getAll_def)
  with r show ?thesis
    by (intro exI [of _ u'] exI [of _ calls] exI [of _ s]) (simp add: sample_platform_def)
qed

text \<open>
  Claim C9 as stated fails: the key goes into the object URL as it is, so a key with a
  query of its own gives the signed URL a second \<open>X-Goog-Expires\<close> parameter, which
  comes first and is not 600.
\<close>

theorem privateAssetUrl_expires_counterexample:
  "\<exists>u calls. privateAssetUrl parsing_platform sample_client ''b'' ''k?X-Goog-Expires=604800'' None
       = (Inr u, calls) \<and>
     searchParams_getAll u ''X-Goog-Expires'' = [''604800'', ''600'']"
proof -
  have u: "URL_new parsing_platform
             (object_url ''b'' (withOptionalVersion ''k?X-Goog-Expires=604800'' None)) =
           Some \<lparr> protocol = ''https:'', host = ''b.storage.googleapis.com'',
                  pathname = ''/k'', searchParams = [(''X-Goog-Expires'', ''604800'')] \<rparr>"
    by (simp add: parsing_platform_def object_url_def withOptionalVersion_def parse_https_def
        parse_query_def Let_def)
  have h: "valid_value (normalize_value (host \<lparr> protocol = ''https:'',
      host = ''b.storage.googleapis.com'', pathname = ''/k'',
      searchParams = [(''X-Goog-Expires'', ''604800'')] \<rparr>))"
    using sample_host_valid by simp
  have c: "getCredentials sample_client = Inr (Some ''sa@example'')"
    "\<forall>s ep. \<exists>sg. sign sample_client s ep = Inr sg"
    "now parsing_platform = TimeValue 0"
    by (simp_all add: sample_client_def sample_platform_def parsing_platform_def)
  from privateAssetUrl_returns [OF u h c] obtain u' calls where
    r: "privateAssetUrl parsing_platform sample_client ''b'' ''k?X-Goog-Expires=604800'' None
          = (Inr u', calls)"
    by blast
  from privateAssetUrl_Inr [OF r] u
  have "searchParams_getAll u' ''X-Goog-Expires'' = [''604800'', ''600'']"
    by (auto simp: searchParams_getAll_def)
  with r show ?thesis by blast
qed

subsection \<open>The pool cache\<close>

lemma create_caches:
  assumes "create cfg t1 o1 s = (c1, s1)"
    and "connections s (dbUrl o1) \<noteq> None \<or> isExternalPool o1 \<noteq> Some True \<or> \<not> isMultitenant cfg"
  shows "connections s1 (dbUrl o1) = Some (pool c1, t1 + databaseFreePoolAfterInactivity cfg)"
  using assms
  by (auto simp: create_def TTLCache_get_def TTLCache_set_def Let_def
      split: option.splits prod.splits if_splits)

lemma create_hit:
  assumes "connections s (dbUrl o2) = Some (p, e)"
  shows "create cfg t2 o2 s =
           (\<lparr> pool = p, tc_options = o2, role = role_of o2 \<rparr>,
            s\<lparr>connections := (connections s)(dbUrl o2 \<mapsto> (p, t2 + databaseFreePoolAfterInactivity cfg))\<rparr>)"
  using assms by (simp add: create_def TTLCache_get_def Let_def)

lemma purgeStale_keeps:
  assumes "connections s k = Some (p, e)" and "t < e"
  shows "connections (purgeStale t s) k = Some (p, e)"
  using assms by (simp add: purgeStale_def)

lemma create_uncached:
  assumes "create cfg t1 o1 s = (c1, s1)"
    and "connections s (dbUrl o1) = None" and "isExternalPool o1 = Some True"
    and "isMultitenant cfg"
  shows "connections s1 = connections s \<and> pool_id (pool c1) = pools_made s \<and>
         pools_made s1 = pools_made s + 1"
  using assms by (auto simp: create_def TTLCache_get_def Let_def)

lemma create_miss:
  assumes "create cfg t2 o2 s = (c2, s2)" and "connections s (dbUrl o2) = None"
  shows "pool_id (pool c2) = pools_made s"
  using assms by (auto simp: create_def TTLCache_get_def Let_def split: if_splits)

lemma purgeStale_None:
  assumes "connections s k = None"
  shows "connections (purgeStale t s) k = None" and "pools_made (purgeStale t s) = pools_made s"
  using assms by (simp_all add: purgeStale_def)

text \<open>
  Claim C6, as amended. Let a first \<open>create\<close> at time \<open>t1\<close> be followed by a second one
  with the same connection string at time \<open>t2\<close>, the timer of the cache having run up to
  \<open>t2\<close>. If the first call either finds a pool under its connection string or is not for
  an external pool in multitenant mode, and \<open>t2\<close> is before the entry expires
  (\<open>t2 < t1 + ttl\<close>), the second call returns a connection on the same pool, and the
  entry now expires at \<open>t2 + ttl\<close>. If the first call is for an external pool in
  multitenant mode and finds no pool under its connection string, it leaves the cache as
  it was and the second call makes another pool, however soon it comes.
\<close>

theorem create_same_pool_before_expiry:
  assumes "create cfg t1 o1 s = (c1, s1)"
    and "create cfg t2 o2 (purgeStale t2 s1) = (c2, s2)"
    and "dbUrl o2 = dbUrl o1"
  shows "(t2 < t1 + databaseFreePoolAfterInactivity cfg \<and>
          (connections s (dbUrl o1) \<noteq> None \<or> isExternalPool o1 \<noteq> Some True \<or>
           \<not> isMultitenant cfg) \<longrightarrow>
            pool c2 = pool c1 \<and>
            connections s2 (dbUrl o1) =
              Some (pool c1, t2 + databaseFreePoolAfterInactivity cfg)) \<and>
         (connections s (dbUrl o1) = None \<and> isExternalPool o1 = Some True \<and>
          isMultitenant cfg \<longrightarrow>
            connections s1 = connections s \<and> pool c2 \<noteq> pool c1 \<and>
            pool_id (pool c1) = pools_made s \<and> pool_id (pool c2) = pools_made s + 1)"
proof (rule conjI; rule impI)
  assume a: "t2 < t1 + databaseFreePoolAfterInactivity cfg \<and>
          (connections s (dbUrl o1) \<noteq> None \<or> isExternalPool o1 \<noteq> Some True \<or>
           \<not> isMultitenant cfg)"
  then have "connections s (dbUrl o1) \<noteq> None \<or> isExternalPool o1 \<noteq> Some True \<or>
           \<not> isMultitenant cfg" by simp
  from create_caches [OF assms(1) this]
  have "connections s1 (dbUrl o1) = Some (pool c1, t1 + databaseFreePoolAfterInactivity cfg)" .
  from purgeStale_keeps [OF this] a assms(3)
  have "connections (purgeStale t2 s1) (dbUrl o2)
          = Some (pool c1, t1 + databaseFreePoolAfterInactivity cfg)"
    by simp
  from create_hit [OF this, of cfg t2] assms(2,3)
  show "pool c2 = pool c1 \<and>
        connections s2 (dbUrl o1) = Some (pool c1, t2 + databaseFreePoolAfterInactivity cfg)"
    by auto
next
  assume a: "connections s (dbUrl o1) = None \<and> isExternalPool o1 = Some True \<and>
          isMultitenant cfg"
  then have u: "connections s1 = connections s" "pool_id (pool c1) = pools_made s"
    "pools_made s1 = pools_made s + 1"
    using create_uncached [OF assms(1)] by simp_all
  with a assms(3) have "connections s1 (dbUrl o2) = None" by simp
  from purgeStale_None [OF this, of t2] create_miss [OF assms(2)] u(3)
  have "pool_id (pool c2) = pools_made s + 1" by simp
  with u show "connections s1 = connections s \<and> pool c2 \<noteq> pool c1 \<and>
            pool_id (pool c1) = pools_made s \<and> pool_id (pool c2) = pools_made s + 1"
    by auto
qed

theorem create_same_pool_before_expiry_witness:
  "pool (fst (create (sample_config False) 59999 (sample_tenant True)
           (purgeStale 59999 (snd (create (sample_config False) 0 (sample_tenant True) no_pools)))))
     = pool (fst (create (sample_config False) 0 (sample_tenant True) no_pools)) \<and>
   connections (snd (create (sample_config False) 59999 (sample_tenant True)
           (purgeStale 59999 (snd (create (sample_config False) 0 (sample_tenant True) no_pools)))))
       ''postgres://db/tenant''
     = Some (pool (fst (create (sample_config False) 0 (sample_tenant True) no_pools)), 119999) \<and>
   connections (snd (create (sample_config True) 0 (sample_tenant True) no_pools))
     = connections no_pools \<and>
   pool_id (pool (fst (create (sample_config True) 1 (sample_tenant True)
           (purgeStale 1 (snd (create (sample_config True) 0 (sample_tenant True) no_pools)))))) = 1"
proof -
  have "pool (fst (create (sample_config False) 59999 (sample_tenant True)
           (purgeStale 59999 (snd (create (sample_config False) 0 (sample_tenant True) no_pools)))))
     = pool (fst (create (sample_config False) 0 (sample_tenant True) no_pools)) \<and>
   connections (snd (create (sample_config False) 59999 (sample_tenant True)
           (purgeStale 59999 (snd (create (sample_config False) 0 (sample_tenant True) no_pools)))))
       ''postgres://db/tenant''
     = Some (pool (fst (create (sample_config False) 0 (sample_tenant True) no_pools)), 119999)"
    using create_same_pool_before_expiry [of "sample_config False" 0 "sample_tenant True" no_pools
      "fst (create (sample_config False) 0 (sample_tenant True) no_pools)"
      "snd (create (sample_config False) 0 (sample_tenant True) no_pools)"
      59999 "sample_tenant True"
      "fst (create (sample_config False) 59999 (sample_tenant True)
           (purgeStale 59999 (snd (create (sample_config False) 0 (sample_tenant True) no_pools))))"
      "snd (create (sample_config False) 59999 (sample_tenant True)
           (purgeStale 59999 (snd (create (sample_config False) 0 (sample_tenant True) no_pools))))"]
    by (simp add: sample_config_def sample_tenant_def)
  moreover have "connections (snd (create (sample_config True) 0 (sample_tenant True) no_pools))
     = connections no_pools \<and>
   pool_id (pool (fst (create (sample_config True) 1 (sample_tenant True)
           (purgeStale 1 (snd (create (sample_config True) 0 (sample_tenant True) no_pools)))))) = 1"
    using create_same_pool_before_expiry [of "sample_config True" 0 "sample_tenant True" no_pools
      "fst (create (sample_config True) 0 (sample_tenant True) no_pools)"
      "snd (create (sample_config True) 0 (sample_tenant True) no_pools)"
      1 "sample_tenant True"
      "fst (create (sample_config True) 1 (sample_tenant True)
           (purgeStale 1 (snd (create (sample_config True) 0 (sample_tenant True) no_pools))))"
      "snd (create (sample_config True) 1 (sample_tenant True)
           (purgeStale 1 (snd (create (sample_config True) 0 (sample_tenant True) no_pools))))"]
    by (simp add: sample_config_def sample_tenant_def no_pools_def)
  ultimately show ?thesis by (intro conjI) simp_all
qed

text \<open>
  Claim C6 as stated fails: in multitenant mode a pool for an externally fronted
  connection is never put into the cache, so a second \<open>create\<close> one millisecond later
  makes another pool.
\<close>

theorem create_external_multitenant_counterexample:
  "pool (fst (create (sample_config True) 1 (sample_tenant True)
           (purgeStale 1 (snd (create (sample_config True) 0 (sample_tenant True) no_pools)))))
     \<noteq> pool (fst (create (sample_config True) 0 (sample_tenant True) no_pools))"
  by (simp add: create_def TTLCache_get_def purgeStale_def Let_def sample_config_def
      sample_tenant_def no_pools_def)

subsection \<open>The retry policy of \<open>transaction\<close>\<close>

lemma retry_attempts_bounds:
  "Suc n \<le> snd (retry opts el fn n errs ts) \<and> snd (retry opts el fn n errs ts) \<le> Suc n + length ts"
proof (induction opts el fn n errs ts rule: retry.induct)
  case (1 opts el fn n errs)
  show ?case by (cases "fn n") simp_all
next
  case (2 opts el fn n errs delay ts)
  show ?case
  proof (cases "fn n")
    case (Rejected e)
    with 2 [of e] show ?thesis by (cases "maxRetryTime opts \<le> el n") auto
  qed simp_all
qed

lemma retry_only_after_rejection:
  assumes "n \<le> m" and "Suc m < snd (retry opts el fn n errs ts)"
  shows "\<exists>e. fn m = Rejected e \<and> el m < maxRetryTime opts"
  using assms
proof (induction opts el fn n errs ts rule: retry.induct)
  case (1 opts el fn n errs)
  then show ?case by (cases "fn n") (auto split: if_splits)
next
  case (2 opts el fn n errs delay ts)
  show ?case
  proof (cases "fn n")
    case (Rejected e)
    show ?thesis
    proof (cases "maxRetryTime opts \<le> el n")
      case True
      with Rejected 2(2,3) show ?thesis by simp
    next
      case False
      show ?thesis
      proof (cases "m = n")
        case True
        with Rejected False show ?thesis by simp
      next
        case neq: False
        with 2(2) have "Suc n \<le> m" by simp
        moreover from 2(3) Rejected False
        have "Suc m < snd (retry opts el fn (Suc n) (errs @ [e]) ts)" by simp
        ultimately show ?thesis using 2(1) [OF Rejected False] by simp
      qed
    qed
  next
    case (Resolved v)
    with 2(2,3) show ?thesis by simp
  next
    case (Bailed e)
    with 2(2,3) show ?thesis by simp
  qed
qed

lemma retry_bail_stops:
  assumes "n \<le> m" and "m < snd (retry opts el fn n errs ts)" and "fn m = Bailed e"
  shows "retry opts el fn n errs ts = (Inl e, Suc m)"
  using assms
proof (induction opts el fn n errs ts rule: retry.induct)
  case (1 opts el fn n errs)
  from 1(1,2) have "m = n" by (cases "fn n") (auto split: if_splits)
  with 1(3) show ?case by simp
next
  case (2 opts el fn n errs delay ts)
  show ?case
  proof (cases "m = n")
    case True
    with 2(4) show ?thesis by simp
  next
    case neq: False
    with 2(2) have le: "Suc n \<le> m" by simp
    show ?thesis
    proof (cases "fn n")
      case (Rejected e')
      show ?thesis
      proof (cases "maxRetryTime opts \<le> el n")
        case True
        with Rejected 2(3) le show ?thesis by simp
      next
        case False
        with Rejected 2(3) have "m < snd (retry opts el fn (Suc n) (errs @ [e']) ts)" by simp
        from 2(1) [OF Rejected False le this 2(4)] Rejected False show ?thesis by simp
      qed
    next
      case (Resolved v)
      with 2(3) le show ?thesis by simp
    next
      case (Bailed e')
      with 2(3) le show ?thesis by simp
    qed
  qed
qed

lemma acquire_attempt_Rejected:
  "acquire_attempt r = Rejected e \<longleftrightarrow> r = Inl e \<and> is_transient e"
  by (auto simp: acquire_attempt_def split: sum.splits)

lemma acquire_attempt_Bailed:
  "acquire_attempt r = Bailed e \<longleftrightarrow> r = Inl e \<and> \<not> is_transient e"
  by (auto simp: acquire_attempt_def split: sum.splits)

lemma acquisitions_replicate [simp]:
  "acquisitions (replicate k (PoolTransaction i)) = k"
  "acquisitions (replicate k (PoolTransaction i) @ [AwaitExecution]) = k"
  "acquisitions (replicate k (PoolTransaction i) @ [SetSearchPath sp]) = k"
  "acquisitions (replicate k (PoolTransaction i) @ [SetSearchPath sp, Rollback]) = k"
  by (simp_all add: acquisitions_def)

lemma transaction_acquisitions:
  "acquisitions (snd (transaction cfg pt el ts this instance))
     = snd (acquire_transaction pt el ts this instance)"
  by (simp add: transaction_def Let_def split: prod.splits sum.splits option.splits)

lemma transaction_acquire_failed:
  assumes "fst (acquire_transaction pt el ts this instance) = Inl e"
  shows "fst (transaction cfg pt el ts this instance) = Inl (surface e)"
  using assms
  by (cases "acquire_transaction pt el ts this instance") (simp add: transaction_def Let_def)

lemma retry_continues:
  assumes "n \<le> m" and "m < snd (retry opts el fn n errs ts)" and "fn m = Rejected e"
    and "el m < maxRetryTime opts" and "m - n < length ts"
  shows "Suc m < snd (retry opts el fn n errs ts)"
  using assms
proof (induction opts el fn n errs ts rule: retry.induct)
  case (1 opts el fn n errs)
  then show ?case by simp
next
  case (2 opts el fn n errs delay ts)
  show ?case
  proof (cases "m = n")
    case True
    from retry_attempts_bounds [of "Suc n" opts el fn "errs @ [e]" ts]
    have "Suc (Suc n) \<le> snd (retry opts el fn (Suc n) (errs @ [e]) ts)" by simp
    with True 2(4,5) show ?thesis by simp
  next
    case neq: False
    with 2(2) have le: "Suc n \<le> m" by simp
    show ?thesis
    proof (cases "fn n")
      case (Rejected e')
      show ?thesis
      proof (cases "maxRetryTime opts \<le> el n")
        case True
        with Rejected 2(3) le show ?thesis by simp
      next
        case False
        with Rejected 2(3) have "m < snd (retry opts el fn (Suc n) (errs @ [e']) ts)" by simp
        moreover from 2(6) le have "m - Suc n < length ts" by simp
        ultimately have "Suc m < snd (retry opts el fn (Suc n) (errs @ [e']) ts)"
          using 2(1) [OF Rejected False le] 2(4,5) by simp
        with Rejected False show ?thesis by simp
      qed
    next
      case (Resolved v)
      with 2(3) le show ?thesis by simp
    next
      case (Bailed e')
      with 2(3) le show ?thesis by simp
    qed
  qed
qed

lemma retry_rejected_last:
  assumes "n \<le> m" and "snd (retry opts el fn n errs ts) = Suc m" and "fn m = Rejected e"
  shows "\<exists>e'. fst (retry opts el fn n errs ts) = Inl e'"
  using assms
proof (induction opts el fn n errs ts rule: retry.induct)
  case (1 opts el fn n errs)
  from 1(2) have "m = n" by (cases "fn n") (auto split: if_splits)
  with 1(3) show ?case by simp
next
  case (2 opts el fn n errs delay ts)
  show ?case
  proof (cases "fn n")
    case (Rejected e')
    show ?thesis
    proof (cases "maxRetryTime opts \<le> el n")
      case True
      with Rejected show ?thesis by simp
    next
      case False
      from retry_attempts_bounds [of "Suc n" opts el fn "errs @ [e']" ts]
      have "Suc (Suc n) \<le> snd (retry opts el fn (Suc n) (errs @ [e']) ts)" by simp
      with Rejected False 2(3) have le: "Suc n \<le> m" by simp
      from Rejected False 2(3) have "snd (retry opts el fn (Suc n) (errs @ [e']) ts) = Suc m"
        by simp
      from 2(1) [OF Rejected False le this 2(4)] Rejected False show ?thesis by simp
    qed
  next
    case (Resolved v)
    with 2(3) have "m = n" by simp
    with Resolved 2(4) show ?thesis by simp
  next
    case (Bailed e')
    then show ?thesis by simp
  qed
qed

text \<open>
  Claim C3. Let \<open>transaction\<close> run with the ten delays the retry library draws. It
  calls \<open>pool.transaction()\<close> at least once and at most eleven times (ten retries). An
  attempt that was made is followed by another one if and only if it failed with the
  database error of code 08P01 whose message contains "no more connections allowed",
  less than 3000 ms after the start, and fewer than ten retries came before. A failure
  with any other error is the last attempt and is the error of the whole call, a
  \<open>KnexTimeoutError\<close> wrapped as \<open>DatabaseTimeout\<close>; and when the last attempt failed, so
  does the call.
\<close>

theorem transaction_retry_policy:
  assumes "transaction cfg pt el timeouts this instance = (res, calls)"
    and "length timeouts = retries transaction_retry_options"
    and "p = (case instance of Some i \<Rightarrow> i | None \<Rightarrow> pool this)"
  shows "1 \<le> acquisitions calls \<and> acquisitions calls \<le> 11 \<and>
         (\<forall>n. n < acquisitions calls \<longrightarrow>
            (Suc n < acquisitions calls \<longleftrightarrow>
               n < 10 \<and> el n < 3000 \<and>
               (\<exists>code msg. pt p n = Inl (PgDatabaseError code msg) \<and> code = ''08P01'' \<and>
                  string_includes msg ''no more connections allowed''))) \<and>
         (\<forall>n e. n < acquisitions calls \<and> pt p n = Inl e \<and> \<not> is_transient e \<longrightarrow>
            acquisitions calls = Suc n \<and> res = Inl (surface e)) \<and>
         (\<forall>n msg. n < acquisitions calls \<and> pt p n = Inl (KnexTimeoutError msg) \<longrightarrow>
            acquisitions calls = Suc n \<and>
            res = Inl (ERRORS_DatabaseTimeout (KnexTimeoutError msg))) \<and>
         (\<forall>n e. acquisitions calls = Suc n \<and> pt p n = Inl e \<longrightarrow> (\<exists>e'. res = Inl e'))"
proof -
  let ?fn = "\<lambda>n. acquire_attempt (pt p n)"
  let ?r = "retry transaction_retry_options el ?fn 0 [] timeouts"
  have acq: "acquire_transaction pt el timeouts this instance = ?r"
    by (simp add: acquire_transaction_def assms(3))
  have n: "acquisitions calls = snd ?r"
    using transaction_acquisitions [of cfg pt el timeouts "this" "instance"] assms(1) acq by simp
  have bound: "1 \<le> acquisitions calls \<and> acquisitions calls \<le> 11"
    using retry_attempts_bounds [of 0 transaction_retry_options el "?fn" "[]" timeouts] assms(2) n
    by (simp add: transaction_retry_options_def)
  have retried: "k < 10 \<and> el k < 3000 \<and>
      (\<exists>code msg. pt p k = Inl (PgDatabaseError code msg) \<and> code = ''08P01'' \<and>
         string_includes msg ''no more connections allowed'')"
    if "Suc k < acquisitions calls" for k
  proof -
    from that n have "Suc k < snd ?r" by simp
    from retry_only_after_rejection [where fn = "?fn" and m = k and n = 0, OF _ this]
    obtain e where e: "acquire_attempt (pt p k) = Rejected e"
      and t: "el k < maxRetryTime transaction_retry_options" by auto
    from e have "pt p k = Inl e" "is_transient e" by (simp_all add: acquire_attempt_Rejected)
    moreover from that bound have "k < 10" by simp
    ultimately show ?thesis using t
      by (cases e) (simp_all add: transaction_retry_options_def)
  qed
  have again: "Suc k < acquisitions calls"
    if "k < acquisitions calls" "k < 10" "el k < 3000"
      "pt p k = Inl (PgDatabaseError code msg)" "code = ''08P01''"
      "string_includes msg ''no more connections allowed''" for k code msg
  proof -
    from that(4,5,6) have "acquire_attempt (pt p k) = Rejected (PgDatabaseError code msg)"
      by (simp add: acquire_attempt_Rejected)
    moreover from that(1) n have "k < snd ?r" by simp
    moreover from that(3) have "el k < maxRetryTime transaction_retry_options"
      by (simp add: transaction_retry_options_def)
    moreover from that(2) assms(2) have "k - 0 < length timeouts"
      by (simp add: transaction_retry_options_def)
    ultimately have "Suc k < snd ?r"
      by (intro retry_continues [where fn = "?fn" and m = k and n = 0]) simp_all
    with n show ?thesis by simp
  qed
  have aborted: "acquisitions calls = Suc k \<and> res = Inl (surface e)"
    if "k < acquisitions calls" "pt p k = Inl e" "\<not> is_transient e" for k e
  proof -
    from that(2,3) have "acquire_attempt (pt p k) = Bailed e"
      by (simp add: acquire_attempt_Bailed)
    with that(1) n have r: "?r = (Inl e, Suc k)"
      by (intro retry_bail_stops [where fn = "?fn" and m = k and n = 0]) simp_all
    with acq have "fst (acquire_transaction pt el timeouts this instance) = Inl e" by simp
    from transaction_acquire_failed [OF this, of cfg] assms(1) r n show ?thesis by simp
  qed
  have timeout: "acquisitions calls = Suc k \<and> res = Inl (ERRORS_DatabaseTimeout (KnexTimeoutError msg))"
    if "k < acquisitions calls" "pt p k = Inl (KnexTimeoutError msg)" for k msg
    using aborted [OF that] by simp
  have failed: "\<exists>e'. res = Inl e'" if "acquisitions calls = Suc k" "pt p k = Inl e" for k e
  proof (cases "is_transient e")
    case True
    with that(2) have "acquire_attempt (pt p k) = Rejected e"
      by (simp add: acquire_attempt_Rejected)
    moreover from that(1) n have "snd ?r = Suc k" by simp
    ultimately obtain e' where "fst ?r = Inl e'"
      using retry_rejected_last [where fn = "?fn" and m = k and n = 0] by blast
    with acq have "fst (acquire_transaction pt el timeouts this instance) = Inl e'" by simp
    from transaction_acquire_failed [OF this, of cfg] assms(1) show ?thesis by simp
  next
    case False
    with that aborted [of k e] show ?thesis by simp
  qed
  from retried again have step: "\<forall>k. k < acquisitions calls \<longrightarrow>
            (Suc k < acquisitions calls \<longleftrightarrow>
               k < 10 \<and> el k < 3000 \<and>
               (\<exists>code msg. pt p k = Inl (PgDatabaseError code msg) \<and> code = ''08P01'' \<and>
                  string_includes msg ''no more connections allowed''))"
    by blast
  from bound step aborted timeout failed show ?thesis by blast
qed

theorem transaction_retry_policy_witness:
  "acquisitions (snd (transaction (sample_config False) busy_then_timeout (\<lambda>n. 100 * n)
       sample_delays (sample_connection False) None)) = 3 \<and>
   fst (transaction (sample_config False) busy_then_timeout (\<lambda>n. 100 * n)
       sample_delays (sample_connection False) None)
     = Inl (ERRORS_DatabaseTimeout (KnexTimeoutError ''acquire timeout''))"
proof -
  let ?T = "transaction (sample_config False) busy_then_timeout (\<lambda>n. 100 * n)
       sample_delays (sample_connection False) None"
  have t: "is_transient too_many_connections"
    by (simp add: too_many_connections_def)
  have r: "acquire_transaction busy_then_timeout (\<lambda>n. 100 * n) sample_delays
             (sample_connection False) None = (Inl (KnexTimeoutError ''acquire timeout''), 3)"
    by (simp add: acquire_transaction_def sample_delays_def busy_then_timeout_def
        acquire_attempt_def t transaction_retry_options_def numeral_3_eq_3)
  have n: "acquisitions (snd ?T) = 3"
    using transaction_acquisitions [of "sample_config False" busy_then_timeout "\<lambda>n. 100 * n"
        sample_delays "sample_connection False" None] r
    by simp
  note T = transaction_retry_policy [of "sample_config False" busy_then_timeout "\<lambda>n. 100 * n"
      sample_delays "sample_connection False" None "fst ?T" "snd ?T" "pool (sample_connection False)",
      OF prod.collapse [symmetric]]
  have "length sample_delays = retries transaction_retry_options"
    by (simp add: sample_delays_def transaction_retry_options_def)
  from T [OF this] have "\<forall>n msg. n < acquisitions (snd ?T) \<and>
       busy_then_timeout (pool (sample_connection False)) n = Inl (KnexTimeoutError msg) \<longrightarrow>
       acquisitions (snd ?T) = Suc n \<and> fst ?T = Inl (ERRORS_DatabaseTimeout (KnexTimeoutError msg))"
    by simp
  from this [rule_format, of 2 "''acquire timeout''"] n
  have "fst ?T = Inl (ERRORS_DatabaseTimeout (KnexTimeoutError ''acquire timeout''))"
    by (simp add: busy_then_timeout_def)
  with n show ?thesis by simp
qed

subsection \<open>A transaction that is already completed\<close>

text \<open>
  Claim C4, as amended. On an externally fronted connection without an explicit
  instance, when the transaction that was acquired reports itself completed,
  \<open>transaction\<close> does not return it: after the acquisition attempts its only further call
  is to await the execution outcome, and it fails with the reason of that outcome when
  it rejects (a \<open>KnexTimeoutError\<close> wrapped as \<open>DatabaseTimeout\<close>), and with the database
  error "Transaction already completed" when the outcome resolves.
\<close>

theorem transaction_already_completed:
  assumes "acquire_transaction pt el timeouts this None = (Inr (Some tnx), k)"
    and "isExternalPool (tc_options this) = Some True"
    and "isCompleted tnx"
  shows "transaction cfg pt el timeouts this None =
           (Inl (case executionPromise tnx of
                   Some e \<Rightarrow> surface e
                 | None \<Rightarrow> ERRORS_DatabaseError ''Transaction already completed''),
            replicate k (PoolTransaction (pool_id (pool this))) @ [AwaitExecution])"
  using assms by (simp add: transaction_def Let_def split: option.splits)

theorem transaction_already_completed_witness:
  "transaction (sample_config True) (\<lambda>p n. Inr (Some (sample_transaction True None))) (\<lambda>n. 0)
     sample_delays (sample_connection True) None =
     (Inl (ERRORS_DatabaseError ''Transaction already completed''),
      [PoolTransaction (pool_id (pool (sample_connection True))), AwaitExecution])"
proof -
  have a: "acquire_transaction (\<lambda>p n. Inr (Some (sample_transaction True None))) (\<lambda>n. 0)
             sample_delays (sample_connection True) None
           = (Inr (Some (sample_transaction True None)), 1)"
    by (simp add: acquire_transaction_def sample_delays_def acquire_attempt_def)
  have e: "isExternalPool (tc_options (sample_connection True)) = Some True"
    by (simp add: sample_connection_def create_def TTLCache_get_def Let_def no_pools_def
        sample_tenant_def)
  have c: "isCompleted (sample_transaction True None)"
    by (simp add: sample_transaction_def)
  from transaction_already_completed [OF a e c, of "sample_config True"]
  show ?thesis by (simp add: sample_transaction_def)
qed

text \<open>
  Claim C4 as stated fails: when the execution outcome of the completed transaction
  rejects, \<open>transaction\<close> fails with that rejection, not with the error
  "Transaction already completed".
\<close>

theorem transaction_already_completed_counterexample:
  "fst (transaction (sample_config True)
          (\<lambda>p n. Inr (Some (sample_transaction True (Some (JsError ''Connection terminated'')))))
          (\<lambda>n. 0) sample_delays (sample_connection True) None)
     = Inl (JsError ''Connection terminated'') \<and>
   fst (transaction (sample_config True)
          (\<lambda>p n. Inr (Some (sample_transaction True (Some (JsError ''Connection terminated'')))))
          (\<lambda>n. 0) sample_delays (sample_connection True) None)
     \<noteq> Inl (ERRORS_DatabaseError ''Transaction already completed'')"
proof -
  have e: "isExternalPool (tc_options (sample_connection True)) = Some True"
    by (simp add: sample_connection_def create_def TTLCache_get_def Let_def no_pools_def
        sample_tenant_def)
  show ?thesis
    by (simp add: transaction_def acquire_transaction_def sample_delays_def acquire_attempt_def
        e sample_transaction_def Let_def)
qed

subsection \<open>The base32 round trip\<close>

lemma js_shift_zero [simp]: "js_shl 0 n = 0" "js_shr 0 n = 0"
  by (simp_all add: js_shl_def js_shr_def)

lemma js_shr_byte_8 [simp]: "js_shr (ucast (f :: byte)) 8 = 0"
  unfolding js_shr_def
  by (rule bit_word_eqI) (auto simp: bit_simps dest: bit_imp_le_length)

lemma byte_at_drop: "byte_at (drop n buffer) i = byte_at buffer (i + n)"
  by (auto simp: byte_at_def add.commute)

lemma encode_loop_drop:
  "encode_loop buffer (i + n) j k result = encode_loop (drop n buffer) i j k result"
proof (induction "drop n buffer" i j k result rule: encode_loop.induct)
  case (1 i j k result)
  define k' where "k' = (if k + 5 \<ge> 5 then k + 5 - 8 else k + 5)"
  note L = encode_loop.simps [of buffer "i + n" j k result, unfolded Let_def, folded k'_def]
  note R = encode_loop.simps [of "drop n buffer" i j k result, unfolded Let_def, folded k'_def]
  show ?case
  proof (cases "i + n < length buffer")
    case False
    then have nlt: "\<not> i < length (drop n buffer)" by simp
    show ?thesis unfolding L R by (simp only: False nlt if_False)
  next
    case True
    then have lt: "i < length (drop n buffer)" by simp
    note IH = "1.hyps" [OF lt k'_def refl refl]
    show ?thesis
    proof (cases "k' < 0")
      case neg: True
      with IH show ?thesis unfolding L R
        by (simp only: True lt neg if_True byte_at_drop) (simp add: add.assoc add.commute)
    next
      case nonneg: False
      with IH show ?thesis unfolding L R
        by (simp only: True lt nonneg if_True if_False byte_at_drop) (simp add: add.assoc add.commute)
    qed
  qed
qed

lemma encode_unroll:
  "i < 5 \<Longrightarrow> encode_loop buffer i j k result =
     (if i < length buffer
      then (let k' = (if k + 5 \<ge> 5 then k + 5 - 8 else k + 5);
                x = (if k' < 0
                     then js_shr (byte_at buffer i) (- k') OR js_shl (byte_at buffer (i + 1)) (8 + k')
                     else js_shl (byte_at buffer i) k' OR js_shr (byte_at buffer (i + 1)) (8 - k'));
                i' = (if k' < 0 then i else i + 1)
            in encode_loop buffer i' (j + 1) k' (result[j := alphabet ! unat (x AND mask)]))
      else result)"
  by (rule encode_loop.simps)

lemma write_at_append:
  "write_at r j (xs @ ys) = write_at (write_at r j xs) (j + length xs) ys"
  by (induction xs arbitrary: r j) simp_all

lemma encode_group:
  "encode_loop (a # b # c # d # e # rest) 0 j 0 result =
   encode_loop rest 0 (j + 8) 0
     (write_at result j
        (map symbol (quintet_group (ucast a) (ucast b) (ucast c) (ucast d) (ucast e))))"
proof -
  have "encode_loop (a # b # c # d # e # rest) 0 j 0 result =
        encode_loop (a # b # c # d # e # rest) (0 + 5) (j + 8) 0
          (write_at result j
            (map symbol (quintet_group (ucast a) (ucast b) (ucast c) (ucast d) (ucast e))))"
    by (simp add: encode_unroll Let_def byte_at_def quintet_group_def symbol_def eval_nat_numeral)
  also have "\<dots> = encode_loop rest 0 (j + 8) 0
          (write_at result j
            (map symbol (quintet_group (ucast a) (ucast b) (ucast c) (ucast d) (ucast e))))"
    by (subst encode_loop_drop) simp
  finally show ?thesis .
qed

lemma encode_short:
  "encode_loop [a] 0 j 0 result = write_at result j (map symbol (quintets [a]))"
  "encode_loop [a, b] 0 j 0 result = write_at result j (map symbol (quintets [a, b]))"
  "encode_loop [a, b, c] 0 j 0 result = write_at result j (map symbol (quintets [a, b, c]))"
  "encode_loop [a, b, c, d] 0 j 0 result = write_at result j (map symbol (quintets [a, b, c, d]))"
  by (simp_all add: encode_unroll Let_def byte_at_def quintet_group_def symbol_def)

lemma encode_loop_quintets:
  "encode_loop xs 0 j 0 result = write_at result j (map symbol (quintets xs))"
proof (induction xs arbitrary: j result rule: quintets.induct)
  case 1
  show ?case by (simp add: encode_loop.simps)
next
  case (6 a b c d e rest)
  have "length (quintet_group (ucast a) (ucast b) (ucast c) (ucast d) (ucast e)) = 8"
    by (simp add: quintet_group_def)
  then show ?case
    by (simp add: encode_group 6 write_at_append)
qed (simp_all only: encode_short)

lemma decode_loop_drop:
  "decode_loop str (i + n) j k result = decode_loop (drop n str) i j k result"
proof (induction "drop n str" i j k result rule: decode_loop.induct)
  case (1 i j k result)
  define x where "x = fromCharCode (drop n str ! i)"
  note L = decode_loop.simps [of str "i + n" j k result, unfolded Let_def]
  note R = decode_loop.simps [of "drop n str" i j k result, unfolded Let_def, folded x_def]
  show ?case
  proof (cases "i + n < length str")
    case False
    then have nlt: "\<not> i < length (drop n str)" by simp
    show ?thesis unfolding L R by (simp only: False nlt if_False)
  next
    case True
    then have lt: "i < length (drop n str)" by simp
    from True have x: "fromCharCode (str ! (i + n)) = x"
      by (simp add: x_def add.commute)
    note IH = "1.hyps" [OF lt x_def]
    show ?thesis
      unfolding L R x using True lt IH
      by (auto simp: add.assoc add.commute)
  qed
qed

lemma or_at_prefix: "or_at (pre @ r) (length pre + j) v = pre @ or_at r j v"
  by (simp add: or_at_def list_update_append nth_append)

lemma decode_loop_prefix:
  "decode_loop str i (length pre + j) k (pre @ result) = pre @ decode_loop str i j k result"
proof (induction str i j k result rule: decode_loop.induct)
  case (1 str i j k result)
  define x where "x = fromCharCode (str ! i)"
  note L = decode_loop.simps [of str i "length pre + j" k "pre @ result", unfolded Let_def, folded x_def]
  note R = decode_loop.simps [of str i j k result, unfolded Let_def, folded x_def]
  show ?case
  proof (cases "i < length str")
    case False
    show ?thesis unfolding L R by (simp only: False if_False)
  next
    case True
    note IH = "1.IH" [OF True x_def]
    show ?thesis
      unfolding L R using True IH
      by (auto simp: or_at_prefix add.assoc simp flip: add_Suc_right)
  qed
qed

lemma alphabet_index: "\<forall>n \<in> set [0..<32]. fromCharCode (alphabet ! n) = int n \<and> alphabet ! n \<noteq> padding"
  by code_simp

lemma masked_less: "unat (x AND mask) < 32"
proof -
  have "x AND mask \<le> mask" by (rule word_and_le1)
  then have "unat (x AND mask) \<le> unat mask" by (simp add: word_le_nat_alt)
  then show ?thesis by (simp add: mask_def)
qed

lemma fromCharCode_symbol: "fromCharCode (symbol x) = int (unat (x AND mask))"
  using alphabet_index masked_less [of x] by (simp add: symbol_def)

lemma symbol_not_padding: "symbol x \<noteq> padding"
  using alphabet_index masked_less [of x] by (simp add: symbol_def)

lemma fromCharCode_symbol_simps [simp]:
  "fromCharCode (symbol x) = - 1 \<longleftrightarrow> False"
  "of_int (fromCharCode (symbol x)) = x AND mask"
proof -
  have "0 \<le> fromCharCode (symbol x)" by (simp add: fromCharCode_symbol)
  then show "fromCharCode (symbol x) = - 1 \<longleftrightarrow> False" by auto
  show "of_int (fromCharCode (symbol x)) = x AND mask" by (simp add: fromCharCode_symbol)
qed

lemma decode_unroll:
  "i < 8 \<Longrightarrow> decode_loop str i j k result =
     (if i < length str
      then (let x = fromCharCode (str ! i)
            in if x = - 1 then decode_loop str (i + 1) j k result
               else if k < 3
                    then decode_loop str (i + 1) j (k + 5) (or_at result j (js_shl (of_int x) (3 - k)))
                    else decode_loop str i (j + 1) (k - 8) (or_at result j (js_shr (of_int x) (k - 3))))
      else result)"
  by (rule decode_loop.simps)

lemma byte_eqI:
  fixes x y :: byte
  assumes "bit x 0 = bit y 0" "bit x 1 = bit y 1" "bit x 2 = bit y 2" "bit x 3 = bit y 3"
    "bit x 4 = bit y 4" "bit x 5 = bit y 5" "bit x 6 = bit y 6" "bit x 7 = bit y 7"
  shows "x = y"
proof (rule bit_word_eqI)
  fix n assume "n < LENGTH(8)"
  then have "n \<in> {0, 1, 2, 3, 4, 5, 6, 7}"
    by auto
  with assms show "bit x n = bit y n" by auto
qed


lemma byte_high_bit [simp]: "8 \<le> n \<Longrightarrow> \<not> bit (b :: byte) n"
  by (auto dest: bit_imp_le_length)

lemma bit_js_shl:
  "0 \<le> k \<Longrightarrow> k < 32 \<Longrightarrow> bit (js_shl a k) n \<longleftrightarrow> nat k \<le> n \<and> n < 32 \<and> bit a (n - nat k)"
  by (auto simp: js_shl_def bit_simps)

lemma bit_js_shr:
  "0 \<le> k \<Longrightarrow> k < 32 \<Longrightarrow>
   bit (js_shr a k) n \<longleftrightarrow> bit a (if 32 - nat k \<le> n \<and> n < 32 then 31 else nat k + n)"
  by (simp add: js_shr_def bit_simps)

lemma bit_mask: "bit mask n \<longleftrightarrow> n < 5"
proof -
  have eq: "mask = (Bit_Operations.mask 5 :: int32)" by (simp add: mask_def mask_eq_exp_minus_1)
  show ?thesis unfolding eq by (auto simp: bit_mask_iff)
qed

lemmas shift_bits = bit_js_shl bit_js_shr bit_mask bit_and_iff bit_or_iff bit_ucast_iff

lemma group_bytes:
  fixes a b c d e :: byte
  defines "q0 \<equiv> js_shr (ucast a) 3 OR js_shl (ucast b) 5"
    and "q1 \<equiv> js_shl (ucast a) 2 OR js_shr (ucast b) 6"
    and "q2 \<equiv> js_shr (ucast b) 1 OR js_shl (ucast c) 7"
    and "q3 \<equiv> js_shl (ucast b) 4 OR js_shr (ucast c) 4"
    and "q4 \<equiv> js_shl (ucast c) 1 OR js_shr (ucast d) 7"
    and "q5 \<equiv> js_shr (ucast d) 2 OR js_shl (ucast e) 6"
    and "q6 \<equiv> js_shl (ucast d) 3 OR js_shr (ucast e) 5"
    and "q7 \<equiv> js_shl (ucast e) 0"
  shows "ucast (ucast (ucast (js_shl (q0 AND mask) 3) :: byte) OR js_shr (q1 AND mask) 2) = a"
    and "ucast (ucast (ucast (ucast (ucast (js_shl (q1 AND mask) 6) :: byte)
            OR js_shl (q2 AND mask) 1) :: byte) OR js_shr (q3 AND mask) 4) = b"
    and "ucast (ucast (ucast (js_shl (q3 AND mask) 4) :: byte) OR js_shr (q4 AND mask) 1) = c"
    and "ucast (ucast (ucast (ucast (ucast (js_shl (q4 AND mask) 7) :: byte)
            OR js_shl (q5 AND mask) 2) :: byte) OR js_shr (q6 AND mask) 3) = d"
    and "ucast (ucast (ucast (js_shl (q6 AND mask) 5) :: byte) OR js_shr (q7 AND mask) 0) = e"
  unfolding assms
  by (rule byte_eqI; (simp add: shift_bits)?; (simp add: eval_nat_numeral)?)+

lemma shl_8_low: "ucast (ucast (y :: byte) OR js_shl (q AND mask) 8) = y"
  by (rule byte_eqI; (simp add: shift_bits)?; (simp add: eval_nat_numeral)?)

lemma or_at_simps [simp]:
  "or_at (x # ys) 0 v = ucast (ucast x OR v) # ys"
  "or_at (x # ys) (Suc m) v = x # or_at ys m v"
  "or_at [] m v = []"
  by (simp_all add: or_at_def)

lemma or_at_shl_8 [simp]: "or_at zs 0 (js_shl (q AND mask) 8) = zs"
  by (cases zs) (simp_all add: shl_8_low)

lemma decode_group:
  "decode_loop (map symbol (quintet_group (ucast a) (ucast b) (ucast c) (ucast d) (ucast e)) @ rest)
     0 0 0 (0 # 0 # 0 # 0 # 0 # zs) =
   [a, b, c, d, e] @ decode_loop rest 0 0 0 zs"
proof -
  let ?str = "map symbol (quintet_group (ucast a) (ucast b) (ucast c) (ucast d) (ucast e)) @ rest"
  have "decode_loop ?str 0 0 0 (0 # 0 # 0 # 0 # 0 # zs) =
        decode_loop ?str (0 + 8) (length [a, b, c, d, e] + 0) 0 ([a, b, c, d, e] @ zs)"
    by (simp add: decode_unroll Let_def quintet_group_def group_bytes eval_nat_numeral)
  also have "\<dots> = [a, b, c, d, e] @ decode_loop (drop 8 ?str) 0 0 0 zs"
    by (simp only: decode_loop_drop decode_loop_prefix)
  also have "drop 8 ?str = rest"
    by (simp add: quintet_group_def)
  finally show ?thesis .
qed

lemma decode_short:
  "decode_loop (map symbol (quintets [a])) 0 0 0 [0] = [a]"
  "decode_loop (map symbol (quintets [a, b])) 0 0 0 [0, 0] = [a, b]"
  "decode_loop (map symbol (quintets [a, b, c])) 0 0 0 [0, 0, 0] = [a, b, c]"
  "decode_loop (map symbol (quintets [a, b, c, d])) 0 0 0 [0, 0, 0, 0] = [a, b, c, d]"
  using group_bytes(1) [where a = a and b = 0] group_bytes(2) [where a = a and b = b and c = 0]
    group_bytes(3) [where b = b and c = c and d = 0]
    group_bytes(4) [where c = c and d = d and e = 0]
  by (simp_all add: decode_unroll Let_def quintet_group_def group_bytes)

lemma decode_loop_quintets:
  "decode_loop (map symbol (quintets xs)) 0 0 0 (replicate (length xs) 0) = xs"
proof (induction xs rule: quintets.induct)
  case 1
  show ?case by (simp add: decode_loop.simps)
next
  case (2 a)
  show ?case using decode_short(1) [of a] by simp
next
  case (3 a b)
  show ?case using decode_short(2) [of a b] by simp
next
  case (4 a b c)
  show ?case using decode_short(3) [of a b c] by (simp add: eval_nat_numeral)
next
  case (5 a b c d)
  show ?case using decode_short(4) [of a b c d] by (simp add: eval_nat_numeral)
next
  case (6 a b c d e rest)
  have "replicate (length (a # b # c # d # e # rest)) (0 :: byte) =
        0 # 0 # 0 # 0 # 0 # replicate (length rest) 0"
    by simp
  with 6 show ?case
    by (simp only: quintets.simps map_append decode_group) simp
qed

lemma length_quintets_le: "length (quintets xs) \<le> (length xs + 4) div 5 * 8"
proof (induction xs rule: quintets.induct)
  case (6 a b c d e rest)
  have "(length (a # b # c # d # e # rest) + 4) div 5 = Suc ((length rest + 4) div 5)"
    by simp
  with 6 show ?case by (simp add: quintet_group_def)
qed (simp_all add: quintet_group_def)

lemma length_quintets_bytes: "length (quintets xs) * 5 div 8 = length xs"
  by (induction xs rule: quintets.induct) (simp_all add: quintet_group_def)

lemma write_at_inside:
  "j + length cs \<le> length r \<Longrightarrow> write_at r j cs = take j r @ cs @ drop (j + length cs) r"
proof (induction cs arbitrary: r j)
  case Nil
  then show ?case by simp
next
  case (Cons c cs)
  then have "write_at (r[j := c]) (Suc j) cs =
             take (Suc j) (r[j := c]) @ cs @ drop (Suc j + length cs) (r[j := c])"
    by (intro Cons.IH) simp
  also from Cons.prems have "take (Suc j) (r[j := c]) = take j r @ [c]"
    by (simp add: take_Suc_conv_app_nth)
  finally show ?case by simp
qed

lemma encode_eq:
  "encode buffer =
     map symbol (quintets buffer) @
     replicate ((length buffer + 4) div 5 * 8 - length (quintets buffer)) padding"
proof -
  show ?thesis
    using length_quintets_le [of buffer]
    by (simp add: encode_def encode_loop_quintets write_at_inside)
qed

lemma strip_padding_encode: "strip_padding (encode buffer) = map symbol (quintets buffer)"
proof -
  have keep: "dropWhile (\<lambda>c. c = padding) ys = ys" if "\<forall>c \<in> set ys. c \<noteq> padding" for ys
    using that by (cases ys) auto
  have "dropWhile (\<lambda>c. c = padding) (rev (map symbol (quintets buffer))) =
        rev (map symbol (quintets buffer))"
    by (rule keep) (auto simp: symbol_not_padding)
  moreover have "dropWhile (\<lambda>c. c = padding) (replicate m padding @ ys) =
                 dropWhile (\<lambda>c. c = padding) ys" for m ys
    by (induction m) simp_all
  ultimately show ?thesis
    by (simp add: encode_eq strip_padding_def)
qed

lemma decode_loop_skip:
  assumes "fromCharCode c = - 1"
  shows "decode_loop (c # str) 0 j k result = decode_loop str 0 j k result"
proof -
  have "decode_loop (c # str) 0 j k result = decode_loop (c # str) (0 + 1) j k result"
    using assms by (subst decode_loop.simps) simp
  also have "\<dots> = decode_loop str 0 j k result"
    by (subst decode_loop_drop) simp
  finally show ?thesis .
qed

lemma encode_foo: "encode [0x66, 0x6f, 0x6f] = ''MZXW6===''"
  by code_simp

text \<open>
  Claim C10. For every buffer, \<open>decode (encode buffer)\<close> is the buffer. \<open>encode\<close> gives
  eight characters for every group of five bytes, begun or complete: the characters of
  the alphabet for the five-bit numbers of the buffer, followed by \<open>=\<close> up to that
  length; \<open>decode\<close> removes this padding, and its loop passes over a character that is
  not in the alphabet.
\<close>

theorem base32_round_trip:
  "decode (encode buffer) = buffer \<and>
   length (encode buffer) = (length buffer + 4) div 5 * 8 \<and>
   strip_padding (encode buffer) = map symbol (quintets buffer) \<and>
   encode buffer =
     strip_padding (encode buffer) @
     replicate (length (encode buffer) - length (strip_padding (encode buffer))) padding \<and>
   (\<forall>c str j k result. fromCharCode c = - 1 \<longrightarrow>
      decode_loop (c # str) 0 j k result = decode_loop str 0 j k result)"
proof -
  note n = length_quintets_bytes [of buffer] and le = length_quintets_le [of buffer]
  have 1: "decode (encode buffer) = buffer"
    by (simp add: decode_def strip_padding_encode n decode_loop_quintets)
  have 2: "length (encode buffer) = (length buffer + 4) div 5 * 8"
    using le by (simp add: encode_eq)
  show ?thesis
    using 1 2 strip_padding_encode [of buffer] encode_eq [of buffer] decode_loop_skip by simp
qed

theorem base32_round_trip_witness:
  "decode (encode [0x66, 0x6f, 0x6f]) = [0x66, 0x6f, 0x6f] \<and>
   encode [0x66, 0x6f, 0x6f] = ''MZXW6==='' \<and>
   decode_loop (CHR ''-'' # ''MZXW6'') 0 0 0 [0, 0, 0] = decode_loop ''MZXW6'' 0 0 0 [0, 0, 0]"
proof -
  have "fromCharCode CHR ''-'' = - 1" by code_simp
  with base32_round_trip [of "[0x66, 0x6f, 0x6f]"] encode_foo show ?thesis by simp
qed

subsection \<open>Bulk deletion\<close>

lemma delete_job_fulfilled: "delete_job client bucketName key st = (r, st') \<Longrightarrow> r = Inr ()"
  by (auto simp: delete_job_def split: prod.splits sum.splits)

lemma distinct_fst_remove1:
  assumes "distinct (map fst xs)"
  shows "distinct (map fst (remove1 x xs))"
proof -
  from assms have "distinct xs" "inj_on fst (set xs)" by (simp_all add: distinct_map)
  then have "distinct (remove1 x xs)" "inj_on fst (set (remove1 x xs))"
    by (auto intro: inj_on_diff)
  then show ?thesis by (simp add: distinct_map)
qed

lemma fst_set_remove1:
  assumes "distinct (map fst xs)" and "(j, k) \<in> set xs"
  shows "fst ` set (remove1 (j, k) xs) = fst ` set xs - {j}"
proof -
  from assms(1) have d: "distinct xs" and i: "inj_on fst (set xs)"
    by (simp_all add: distinct_map)
  from d have "set (remove1 (j, k) xs) = set xs - {(j, k)}" by simp
  moreover from i assms(2) have "fst ` (set xs - {(j, k)}) = fst ` set xs - fst ` {(j, k)}"
    by (intro inj_on_image_set_diff [OF i]) auto
  ultimately show ?thesis by simp
qed

lemma accounted_push: "accounted I D T n \<Longrightarrow> accounted (insert n I) D (insert n T) (Suc n)"
  unfolding accounted_def lessThan_Suc by blast

lemma accounted_fresh: "accounted I D T n \<Longrightarrow> n \<notin> I"
  unfolding accounted_def by blast

lemma accounted_settle:
  "accounted I D T n \<Longrightarrow> j \<in> I \<Longrightarrow> accounted (I - {j}) (insert j D) T n"
  unfolding accounted_def by blast

lemma accounted_none_left:
  "accounted I D T n \<Longrightarrow> T \<subseteq> A \<Longrightarrow> \<forall>j \<in> A. j \<in> D \<Longrightarrow> I = {}"
  unfolding accounted_def by blast

lemma accounted_empty: "accounted {} D T n \<Longrightarrow> accounted {} D {} n"
  unfolding accounted_def by blast

lemma accounted_all_settled: "accounted {} D T n \<Longrightarrow> j \<in> T \<Longrightarrow> j \<in> D"
  unfolding accounted_def by blast

lemma disjoint_notin: "A \<inter> B = {} \<Longrightarrow> j \<in> B \<Longrightarrow> j \<notin> A"
  by blast

lemma disjoint_diff: "A \<inter> B = {} \<Longrightarrow> A \<inter> (B - C) = {}"
  by blast

lemma accounted_subset: "accounted I D T n \<Longrightarrow> I \<subseteq> T"
  unfolding accounted_def by blast

lemma invariantI:
  assumes "phases_ok N R Q A W E n p" and "distinct (map fst (W @ E))"
    and "accounted (fst ` set (W @ E)) (dom S) (set Q \<union> set A) n"
    and "\<forall>j r. S j = Some r \<longrightarrow> r = Inr ()"
  shows "invariant N R Q A W E S n p"
  using assms by (simp add: invariant_def)

lemma invariantD:
  assumes "invariant N R Q A W E S n p"
  shows "phases_ok N R Q A W E n p" and "distinct (map fst (W @ E))"
    and "accounted (fst ` set (W @ E)) (dom S) (set Q \<union> set A) n"
    and "\<forall>j r. S j = Some r \<longrightarrow> r = Inr ()"
  using assms by (simp_all add: invariant_def)

lemma invariant_start: "invariant (length ks) ks [] [] [] [] Map.empty 0 Looping"
  by (simp add: invariant_def phases_ok_def accounted_def)

lemma invariant_flush:
  assumes i: "invariant N R Q [] W E S n Looping"
  shows "invariant N R [] Q W E S n Flushing"
proof (rule invariantI)
  from invariantD(1) [OF i] show "phases_ok N R [] Q W E n Flushing"
    by (simp add: phases_ok_def)
  from invariantD(3) [OF i] show "accounted (fst ` set (W @ E)) (dom S) (set [] \<union> set Q) n"
    by simp
qed (rule invariantD [OF i])+

lemma invariant_finish:
  assumes i: "invariant N [] Q [] W E S n Looping"
  shows "invariant N [] Q Q W E S n Finishing"
proof (rule invariantI)
  from invariantD(1) [OF i] show "phases_ok N [] Q Q W E n Finishing"
    by (simp add: phases_ok_def)
  from invariantD(3) [OF i] show "accounted (fst ` set (W @ E)) (dom S) (set Q \<union> set Q) n"
    by simp
qed (rule invariantD [OF i])+

lemma none_left:
  assumes i: "invariant N R Q A W E S n p" and q: "set Q \<subseteq> set A"
    and a: "\<forall>j \<in> set A. S j = Some (Inr ())"
  shows "W = []" and "E = []"
proof -
  from q have "set Q \<union> set A \<subseteq> set A" by simp
  moreover from a have "\<forall>j \<in> set A. j \<in> dom S" by (simp add: dom_def)
  ultimately have "fst ` set (W @ E) = {}"
    by (rule accounted_none_left [OF invariantD(3) [OF i]])
  then show "W = []" and "E = []" by simp_all
qed

lemma invariant_resume:
  assumes i: "invariant N R [] A W E S n Flushing" and a: "\<forall>j \<in> set A. S j = Some (Inr ())"
  shows "invariant N R [] [] W E S n Looping"
proof (rule invariantI)
  have e: "W = []" "E = []" using none_left [OF i _ a] by simp_all
  from invariantD(1) [OF i] show "phases_ok N R [] [] W E n Looping"
    by (simp add: phases_ok_def)
  from invariantD(3) [OF i] e have "accounted {} (dom S) (set [] \<union> set A) n" by simp
  from accounted_empty [OF this] e
  show "accounted (fst ` set (W @ E)) (dom S) (set [] \<union> set []) n" by simp
qed (rule invariantD [OF i])+

lemma invariant_return:
  assumes i: "invariant N R Q A W E S n Finishing" and a: "\<forall>j \<in> set A. S j = Some (Inr ())"
  shows "invariant N R Q A W E S n Returned"
proof (rule invariantI)
  from invariantD(1) [OF i] have "A = Q" by (simp add: phases_ok_def)
  then have "set Q \<subseteq> set A" by simp
  from none_left [OF i this a] invariantD(1) [OF i]
  show "phases_ok N R Q A W E n Returned"
    by (clarsimp simp: phases_ok_def)
qed (rule invariantD [OF i])+

lemma invariant_push:
  assumes i: "invariant N (key # ks) Q [] W E S n Looping" and q: "length Q < MAX_QUEUE_SIZE"
  shows "invariant N ks (Q @ [n]) [] (W @ [(n, key)]) E S (Suc n) Looping"
proof (rule invariantI)
  note ac = invariantD(3) [OF i]
  from invariantD(1) [OF i] q show "phases_ok N ks (Q @ [n]) [] (W @ [(n, key)]) E (Suc n) Looping"
    by (simp add: phases_ok_def)
  have I: "fst ` set ((W @ [(n, key)]) @ E) = insert n (fst ` set (W @ E))" by auto
  have T: "set (Q @ [n]) \<union> set [] = insert n (set Q \<union> set [])" by simp
  from accounted_push [OF ac]
  show "accounted (fst ` set ((W @ [(n, key)]) @ E)) (dom S) (set (Q @ [n]) \<union> set []) (Suc n)"
    unfolding I T .
  from accounted_fresh [OF ac] have "n \<notin> fst ` set W" "n \<notin> fst ` set E"
    by (simp_all add: image_Un)
  with invariantD(2) [OF i] show "distinct (map fst ((W @ [(n, key)]) @ E))"
    by simp
qed (rule invariantD [OF i])

lemma invariant_start_job:
  assumes i: "invariant N R Q A (job # jobs) E S n p" and e: "length E < MAX_PARALLEL_LIMIT"
  shows "invariant N R Q A jobs (E @ [job]) S n p"
proof (rule invariantI)
  from invariantD(1) [OF i] e show "phases_ok N R Q A jobs (E @ [job]) n p"
    by (simp add: phases_ok_def)
  have I: "fst ` set (jobs @ E @ [job]) = fst ` set ((job # jobs) @ E)" by auto
  from invariantD(3) [OF i]
  show "accounted (fst ` set (jobs @ E @ [job])) (dom S) (set Q \<union> set A) n"
    unfolding I .
  from invariantD(2) [OF i] show "distinct (map fst (jobs @ E @ [job]))"
    by auto
qed (rule invariantD [OF i])

lemma invariant_settle:
  assumes i: "invariant N R Q A W E S n p" and m: "(j, key) \<in> set E"
  shows "invariant N R Q A W (remove1 (j, key) E) (S(j \<mapsto> Inr ())) n p"
proof (rule invariantI)
  from invariantD(2) [OF i]
  have d: "distinct (map fst W)" "distinct (map fst E)" "fst ` set W \<inter> fst ` set E = {}"
    by simp_all
  have E': "fst ` set (remove1 (j, key) E) = fst ` set E - {j}"
    by (rule fst_set_remove1 [OF d(2) m])
  from m have jE: "j \<in> fst ` set E" by (rule image_eqI [rotated]) simp
  from d(3) jE have jW: "j \<notin> fst ` set W" by (rule disjoint_notin)
  from m have ne: "E \<noteq> []" by (cases E) simp_all
  have "length (remove1 (j, key) E) \<le> length E" by (simp add: length_remove1)
  with invariantD(1) [OF i] ne show "phases_ok N R Q A W (remove1 (j, key) E) n p"
    by (simp add: phases_ok_def)
  have I: "fst ` set (W @ remove1 (j, key) E) = fst ` set (W @ E) - {j}"
    using E' jW by (simp add: image_Un Un_Diff)
  from jE have "j \<in> fst ` set (W @ E)" by (simp add: image_Un)
  from accounted_settle [OF invariantD(3) [OF i] this]
  show "accounted (fst ` set (W @ remove1 (j, key) E)) (dom (S(j \<mapsto> Inr ()))) (set Q \<union> set A) n"
    unfolding I by simp
  from d(3) have "fst ` set W \<inter> fst ` set (remove1 (j, key) E) = {}"
    unfolding E' by (rule disjoint_diff)
  with d(1) distinct_fst_remove1 [OF d(2), of "(j, key)"]
  show "distinct (map fst (W @ remove1 (j, key) E))"
    by simp
  from invariantD(4) [OF i] show "\<forall>i r. (S(j \<mapsto> Inr ())) i = Some r \<longrightarrow> r = Inr ()"
    by simp
qed

lemma looping_nothing_awaited: "invariant N R Q A W E S n Looping \<Longrightarrow> A = []"
  by (simp add: invariant_def phases_ok_def)

lemma flushing_queue_empty: "invariant N R Q A W E S n Flushing \<Longrightarrow> Q = []"
  by (simp add: invariant_def phases_ok_def)

lemma never_threw: "invariant N R Q A W E S n p \<Longrightarrow> p \<noteq> Threw e"
  by (simp add: invariant_def phases_ok_def)

lemma consistent_start: "consistent (length ks) (bulk_delete_start ks st)"
  by (simp add: consistent_def bulk_delete_start_def invariant_start)

lemma consistent_step:
  assumes "step client bucketName s s'" and "consistent N s"
  shows "consistent N s'"
  using assms
proof (induction rule: step.induct)
  case (flush s)
  from flush(4,1) have i: "invariant N (remaining s) (queue s) (awaited s) (waiting s)
      (executing s) (settled s) (submitted s) Looping"
    by (simp add: consistent_def)
  from looping_nothing_awaited [OF i] have a: "awaited s = []" .
  from invariant_flush [OF i [unfolded a]] show ?case by (simp add: consistent_def)
next
  case (resume s)
  from resume(3,1) have i: "invariant N (remaining s) (queue s) (awaited s) (waiting s)
      (executing s) (settled s) (submitted s) Flushing"
    by (simp add: consistent_def)
  from flushing_queue_empty [OF i] have q: "queue s = []" .
  from invariant_resume [OF i [unfolded q] resume(2)] q show ?case by (simp add: consistent_def)
next
  case (push s key ks)
  from push(4,1) have i: "invariant N (remaining s) (queue s) (awaited s) (waiting s)
      (executing s) (settled s) (submitted s) Looping"
    by (simp add: consistent_def)
  from looping_nothing_awaited [OF i] have a: "awaited s = []" .
  from invariant_push [OF i [unfolded a push(2)] push(3)] a push(1) show ?case
    by (simp add: consistent_def)
next
  case (finish s)
  from finish(3,1) have i: "invariant N (remaining s) (queue s) (awaited s) (waiting s)
      (executing s) (settled s) (submitted s) Looping"
    by (simp add: consistent_def)
  from looping_nothing_awaited [OF i] have a: "awaited s = []" .
  from invariant_finish [OF i [unfolded a finish(2)]] finish(2) show ?case
    by (simp add: consistent_def)
next
  case (return s)
  from return(3,1) have i: "invariant N (remaining s) (queue s) (awaited s) (waiting s)
      (executing s) (settled s) (submitted s) Finishing"
    by (simp add: consistent_def)
  from invariant_return [OF i return(2)] show ?case by (simp add: consistent_def)
next
  case (throw s j e)
  from throw(4) have "\<forall>j r. settled s j = Some r \<longrightarrow> r = Inr ()"
    by (simp add: consistent_def invariant_def)
  from this [rule_format, OF throw(3)] show ?case by simp
next
  case (start s job jobs)
  from start(3) have i: "invariant N (remaining s) (queue s) (awaited s) (waiting s)
      (executing s) (settled s) (submitted s) (phase s)"
    by (simp add: consistent_def)
  from invariant_start_job [OF i [unfolded start(1)] start(2)] show ?case
    by (simp add: consistent_def)
next
  case (settle j key s r st')
  from settle(3) have i: "invariant N (remaining s) (queue s) (awaited s) (waiting s)
      (executing s) (settled s) (submitted s) (phase s)"
    by (simp add: consistent_def)
  from delete_job_fulfilled [OF settle(2)] have r: "r = Inr ()" .
  from invariant_settle [OF i settle(1)] show ?case
    unfolding r by (simp add: consistent_def)
qed

lemma work_left_decreases:
  assumes "step client bucketName s s'" and "consistent N s"
  shows "work_left s' < work_left s"
  using assms
proof (induction rule: step.induct)
  case (flush s)
  then show ?case by (simp add: work_left_def phase_rank_def)
next
  case (resume s)
  from resume(3,1) have "invariant N (remaining s) (queue s) (awaited s) (waiting s)
      (executing s) (settled s) (submitted s) Flushing"
    by (simp add: consistent_def)
  from flushing_queue_empty [OF this] resume(1) show ?case
    by (simp add: work_left_def phase_rank_def MAX_QUEUE_SIZE_def)
next
  case (push s key ks)
  then show ?case by (simp add: work_left_def phase_rank_def)
next
  case (finish s)
  then show ?case by (simp add: work_left_def phase_rank_def)
next
  case (return s)
  then show ?case by (simp add: work_left_def phase_rank_def)
next
  case (throw s j e)
  from throw(1) show ?case
    by (rule disjE) (simp_all add: work_left_def phase_rank_def)
next
  case (start s job jobs)
  then show ?case by (simp add: work_left_def phase_rank_def)
next
  case (settle j key s r st')
  from settle(1) have "executing s \<noteq> []" by (cases "executing s") simp_all
  with settle(1) show ?case
    by (simp add: work_left_def phase_rank_def length_remove1)
qed

lemma progress:
  assumes c: "consistent N s" and nr: "phase s \<noteq> Returned"
  shows "\<exists>s'. step client bucketName s s'"
proof -
  from c have i: "invariant N (remaining s) (queue s) (awaited s) (waiting s)
      (executing s) (settled s) (submitted s) (phase s)"
    by (simp add: consistent_def)
  show ?thesis
  proof (cases "executing s")
    case (Cons job jobs)
    obtain j key where "job = (j, key)" by (cases job)
    with Cons have "(j, key) \<in> set (executing s)" by simp
    from step.settle [OF this surjective_pairing] show ?thesis ..
  next
    case idle: Nil
    show ?thesis
    proof (cases "waiting s")
      case (Cons job jobs)
      from idle have "length (executing s) < MAX_PARALLEL_LIMIT"
        by (simp add: MAX_PARALLEL_LIMIT_def)
      from step.start [OF Cons this] show ?thesis ..
    next
      case none: Nil
      from invariantD(3) [OF i] idle none
      have ac: "accounted {} (dom (settled s)) (set (queue s) \<union> set (awaited s)) (submitted s)"
        by simp
      have fulfilled: "\<forall>j \<in> set (awaited s). settled s j = Some (Inr ())"
      proof
        fix j assume "j \<in> set (awaited s)"
        then have "j \<in> set (queue s) \<union> set (awaited s)" by simp
        from accounted_all_settled [OF ac this] have "\<exists>r. settled s j = Some r" by (rule domD)
        then obtain r where r: "settled s j = Some r" ..
        from invariantD(4) [OF i, rule_format, OF r] r
        show "settled s j = Some (Inr ())" by simp
      qed
      show ?thesis
      proof (cases "phase s")
        case Looping
        show ?thesis
        proof (cases "remaining s")
          case Nil
          from step.finish [OF Looping this] show ?thesis ..
        next
          case (Cons key ks)
          show ?thesis
          proof (cases "length (queue s) < MAX_QUEUE_SIZE")
            case True
            from step.push [OF Looping Cons True] show ?thesis ..
          next
            case False
            then have "MAX_QUEUE_SIZE \<le> length (queue s)" by simp
            moreover from Cons have "remaining s \<noteq> []" by simp
            ultimately have "step client bucketName s
                (s\<lparr>awaited := queue s, queue := [], phase := Flushing\<rparr>)"
              by (intro step.flush Looping)
            then show ?thesis ..
          qed
        qed
      next
        case Flushing
        from step.resume [OF Flushing fulfilled] show ?thesis ..
      next
        case Finishing
        from step.return [OF Finishing fulfilled] show ?thesis ..
      next
        case Returned
        with nr show ?thesis by simp
      next
        case (Threw e)
        with never_threw [OF i, of e] show ?thesis by simp
      qed
    qed
  qed
qed

lemma returned_final:
  assumes c: "consistent N s" and r: "phase s = Returned"
  shows "\<not> step client bucketName s s'"
proof
  assume st: "step client bucketName s s'"
  from c r have w: "waiting s = []" "executing s = []"
    by (simp_all add: consistent_def invariant_def phases_ok_def)
  from st show False using w r
    by (cases rule: step.cases) simp_all
qed

lemma reachable_consistent:
  assumes "reachable client bucketName ks st n s"
  shows "consistent (length ks) s \<and> n + work_left s \<le> 5 * length ks + 2"
  using assms
proof (induction rule: reachable.induct)
  case initial
  show ?case
    by (simp add: consistent_start)
       (simp add: work_left_def phase_rank_def bulk_delete_start_def MAX_QUEUE_SIZE_def)
next
  case (after n s s')
  from after(3) have c: "consistent (length ks) s" ..
  from work_left_decreases [OF after(2) c] after(3) consistent_step [OF after(2) c]
  show ?case by simp
qed

lemma in_flight:
  assumes i: "invariant N R Q A W E S n p"
  shows "length W + length E \<le> MAX_QUEUE_SIZE"
proof -
  note ph = invariantD(1) [OF i]
  from invariantD(2) [OF i] have "card (set (map fst (W @ E))) = length (map fst (W @ E))"
    by (rule distinct_card)
  then have 1: "card (fst ` set (W @ E)) = length W + length E" by (simp add: image_Un)
  from accounted_subset [OF invariantD(3) [OF i]]
  have 2: "card (fst ` set (W @ E)) \<le> card (set Q \<union> set A)"
    by (intro card_mono) simp_all
  have 3: "card (set Q \<union> set A) \<le> MAX_QUEUE_SIZE"
  proof (cases p)
    case Looping
    with ph have "A = []" "length Q \<le> MAX_QUEUE_SIZE" by (simp_all add: phases_ok_def)
    with card_length [of Q] show ?thesis by simp
  next
    case Flushing
    with ph have "Q = []" "length A \<le> MAX_QUEUE_SIZE" by (simp_all add: phases_ok_def)
    with card_length [of A] show ?thesis by simp
  next
    case Finishing
    with ph have "A = Q" "length Q \<le> MAX_QUEUE_SIZE" by (simp_all add: phases_ok_def)
    with card_length [of Q] show ?thesis by simp
  next
    case Returned
    with ph have "A = Q" "length Q \<le> MAX_QUEUE_SIZE" by (simp_all add: phases_ok_def)
    with card_length [of Q] show ?thesis by simp
  next
    case (Threw e)
    with ph show ?thesis by (simp add: phases_ok_def)
  qed
  from 1 2 3 show ?thesis by simp
qed

lemma returned_all_settled:
  assumes i: "invariant N R Q A W E S n Returned"
  shows "R = [] \<and> W = [] \<and> E = [] \<and> n = N \<and> dom S = {..<N} \<and>
         (\<forall>j<N. S j = Some (Inr ()))"
proof -
  from invariantD(1) [OF i] have e: "R = []" "W = []" "E = []" "n = N"
    by (clarsimp simp: phases_ok_def)+
  from invariantD(3) [OF i] e have d: "dom S = {..<N}" by (simp add: accounted_def)
  have "S j = Some (Inr ())" if "j < N" for j
  proof -
    from that d have "j \<in> dom S" by simp
    then have "\<exists>r. S j = Some r" by (rule domD)
    then obtain r where r: "S j = Some r" ..
    from invariantD(4) [OF i, rule_format, OF r] r show ?thesis by simp
  qed
  with e d show ?thesis by simp
qed

text \<open>
  Claim C5. Take any state that a call of \<open>deleteObjects\<close> can reach after \<open>n\<close> steps,
  whatever the requests answer (the client is arbitrary, so any of the deletions may
  fail) and however the loop, the limiter and the requests take turns. At most 10
  requests are executing, at most 1000 promises are in the queue and at most 1000 jobs
  are waiting or executing. No \<open>await\<close> has thrown, and every job that settled is
  fulfilled. The call has returned exactly when no step is left, so it never gets stuck
  before; and \<open>n\<close> is at most \<open>5 * length ks + 2\<close>, so every run ends, and ends with the
  call returned. Then a job was submitted for every key and every job is settled.
\<close>

theorem deleteObjects_completes_within_bounds:
  assumes "reachable client bucketName ks st n s"
  shows "length (executing s) \<le> 10 \<and> length (queue s) \<le> 1000 \<and>
         length (waiting s) + length (executing s) \<le> 1000 \<and>
         (\<forall>e. phase s \<noteq> Threw e) \<and>
         (\<forall>j r. settled s j = Some r \<longrightarrow> r = Inr ()) \<and>
         (phase s = Returned \<longleftrightarrow> \<not> (\<exists>s'. step client bucketName s s')) \<and>
         n \<le> 5 * length ks + 2 \<and>
         (phase s = Returned \<longrightarrow>
            remaining s = [] \<and> waiting s = [] \<and> executing s = [] \<and>
            submitted s = length ks \<and> (\<forall>j<length ks. settled s j = Some (Inr ())))"
proof -
  from reachable_consistent [OF assms]
  have c: "consistent (length ks) s" and n: "n + work_left s \<le> 5 * length ks + 2"
    by simp_all
  from c have i: "invariant (length ks) (remaining s) (queue s) (awaited s) (waiting s)
      (executing s) (settled s) (submitted s) (phase s)"
    by (simp add: consistent_def)
  from invariantD(1) [OF i] have 1: "length (executing s) \<le> 10 \<and> length (queue s) \<le> 1000"
    by (simp add: phases_ok_def MAX_PARALLEL_LIMIT_def MAX_QUEUE_SIZE_def)
  from in_flight [OF i] have 2: "length (waiting s) + length (executing s) \<le> 1000"
    by (simp add: MAX_QUEUE_SIZE_def)
  from never_threw [OF i] have 3: "\<forall>e. phase s \<noteq> Threw e" by simp
  note 4 = invariantD(4) [OF i]
  from progress [OF c, of client bucketName] returned_final [OF c, of client bucketName]
  have 5: "phase s = Returned \<longleftrightarrow> \<not> (\<exists>s'. step client bucketName s s')"
    by (cases "phase s = Returned") simp_all
  from n have 6: "n \<le> 5 * length ks + 2" by simp
  have 7: "remaining s = [] \<and> waiting s = [] \<and> executing s = [] \<and>
      submitted s = length ks \<and> (\<forall>j<length ks. settled s j = Some (Inr ()))"
    if "phase s = Returned"
    using returned_all_settled [OF i [unfolded that]] by simp
  from 1 2 3 4 5 6 7 show ?thesis by simp
qed

lemma failing_job: "delete_job failing_client ''b'' ''k'' () = (Inr (), ())"
  by (simp add: delete_job_def deleteObject_def send_def failing_client_def Let_def)

lemma one_key_run_reachable:
  "reachable failing_client ''b'' [''k''] () 5 (one_key_run 5)"
proof -
  note [simp] = one_key_run_def MAX_QUEUE_SIZE_def MAX_PARALLEL_LIMIT_def
  have 0: "reachable failing_client ''b'' [''k''] () 0 (one_key_run 0)"
    using reachable.initial [of failing_client "''b''" "[''k'']" "()"]
    by (simp add: bulk_delete_start_def)
  have "step failing_client ''b'' (one_key_run 0) (one_key_run 1)"
    using step.push [of "one_key_run 0" "''k''" "[]" failing_client "''b''"] by simp
  from reachable.after [OF 0 this]
  have 1: "reachable failing_client ''b'' [''k''] () 1 (one_key_run 1)" by simp
  have "step failing_client ''b'' (one_key_run 1) (one_key_run 2)"
    using step.start [of "one_key_run 1" "(0, ''k'')" "[]" failing_client "''b''"] by simp
  from reachable.after [OF 1 this]
  have 2: "reachable failing_client ''b'' [''k''] () 2 (one_key_run 2)"
    by (simp add: numeral_2_eq_2)
  have "step failing_client ''b'' (one_key_run 2) (one_key_run 3)"
    using step.settle [of 0 "''k''" "one_key_run 2" failing_client "''b''" "Inr ()" "()"]
      failing_job by simp
  from reachable.after [OF 2 this]
  have 3: "reachable failing_client ''b'' [''k''] () 3 (one_key_run 3)"
    by (simp add: numeral_3_eq_3)
  have "step failing_client ''b'' (one_key_run 3) (one_key_run 4)"
    using step.finish [of "one_key_run 3" failing_client "''b''"] by simp
  from reachable.after [OF 3 this]
  have 4: "reachable failing_client ''b'' [''k''] () (Suc 3) (one_key_run 4)" .
  have "step failing_client ''b'' (one_key_run 4) (one_key_run 5)"
    using step.return [of "one_key_run 4" failing_client "''b''"] by simp
  from reachable.after [OF 4 this]
  show ?thesis by (simp add: eval_nat_numeral)
qed

theorem deleteObjects_completes_within_bounds_witness:
  "reachable failing_client ''b'' [''k''] () 5 (one_key_run 5) \<and>
   phase (one_key_run 5) = Returned \<and>
   settled (one_key_run 5) 0 = Some (Inr ()) \<and>
   length (executing (one_key_run 5)) \<le> 10 \<and>
   \<not> (\<exists>s'. step failing_client ''b'' (one_key_run 5) s')"
proof -
  note T = deleteObjects_completes_within_bounds [OF one_key_run_reachable]
  have p: "phase (one_key_run 5) = Returned" by (simp add: one_key_run_def)
  from T p have "\<not> (\<exists>s'. step failing_client ''b'' (one_key_run 5) s')" by simp
  moreover from T p have "settled (one_key_run 5) 0 = Some (Inr ())" by simp
  moreover from T have "length (executing (one_key_run 5)) \<le> 10" by simp
  ultimately show ?thesis using one_key_run_reachable p by simp
qed

end
